theory Spec2Isabelle
  imports Complex_Main
begin

section \<open>Water routing and free surface of pyDeltaRCM (water_tools.py)\<close>

text \<open>
  The arrays of the model are numpy arrays of 64-bit floats and integers. They are
  embedded as total functions from integer coordinates, with the shape kept beside
  them; float64 values are idealised as real numbers (no rounding, no NaN, no
  infinity) and int64 values as unbounded integers. A statement about a cell is
  meant for the cells inside the shape.
\<close>

type_synonym 'a grid = "int \<Rightarrow> int \<Rightarrow> 'a"

text \<open>\<open>a[i, j] = v\<close> on a two-dimensional array.\<close>

definition upd2 :: "'a grid \<Rightarrow> int \<Rightarrow> int \<Rightarrow> 'a \<Rightarrow> 'a grid" where
  "upd2 a i j v = (\<lambda>x y. if x = i \<and> y = j then v else a x y)"

text \<open>The attributes of \<open>self\<close> that the water tools read and write.\<close>

record model =
  grid_L :: int
  grid_W :: int
  eta :: "real grid"
  stage :: "real grid"
  depth :: "real grid"
  cell_type :: "int grid"
  pad_cell_type :: "int grid"
  qx :: "real grid"
  qy :: "real grid"
  qw :: "real grid"
  qxn :: "real grid"
  qyn :: "real grid"
  qwn :: "real grid"
  ux :: "real grid"
  uy :: "real grid"
  uw :: "real grid"
  sfc_visit :: "real grid"
  sfc_sum :: "real grid"
  inlet :: "int list"
  qw0 :: real
  H_SL :: real
  dry_depth :: real
  u_max :: real
  omega_sfc :: real
  omega_flow :: real
  omega_flow_iter :: real
  Nsmooth :: int
  Csmooth :: real
  time_iter :: int
  pad_stage :: "real grid"
  pad_depth :: "real grid"
  water_weights :: "real list grid"
  free_surf_walk_indices :: "int list list"
  looped :: "int list"
  free_surf_flag :: "int list"
  Np_water :: int
  Qp_water :: real
  dx :: real
  stepmax :: int
  L0 :: int
  CTR :: int
  iwalk_flat :: "int list"
  jwalk_flat :: "int list"
  ivec_flat :: "real list"
  jvec_flat :: "real list"
  distances_flat :: "real list"
  gamma :: real
  theta_water :: real
  u0 :: real
  h0 :: real
  S0 :: real

subsection \<open>Flow and velocity fields\<close>

text \<open>
  \<open>update_flow_field\<close>: the accumulated fluxes \<open>qxn\<close>, \<open>qyn\<close> are normalised in place
  (divisor 1 where the direction vector is zero), blended with the previous discharge
  unless \<open>_time_iter\<close> is 0, and the inlet cells of row 0 are forced to \<open>qw0\<close>.
\<close>

definition update_flow_field :: "int \<Rightarrow> model \<Rightarrow> model" where
  "update_flow_field iteration m =
    (let dloc = (\<lambda>i j. sqrt ((qxn m i j) ^ 2 + (qyn m i j) ^ 2));
         qwn_div = (\<lambda>i j. if dloc i j > 0 then qwn m i j / dloc i j else 1);
         qxn1 = (\<lambda>i j. qxn m i j * qwn_div i j);
         qyn1 = (\<lambda>i j. qyn m i j * qwn_div i j);
         omega = (if iteration = 0 then omega_flow m else omega_flow_iter m);
         qx1 = (if time_iter m > 0
                then (\<lambda>i j. qxn1 i j * omega + qx m i j * (1 - omega)) else qxn1);
         qy1 = (if time_iter m > 0
                then (\<lambda>i j. qyn1 i j * omega + qy m i j * (1 - omega)) else qyn1);
         qw1 = (\<lambda>i j. sqrt ((qx1 i j) ^ 2 + (qy1 i j) ^ 2));
         at_inlet = (\<lambda>i j. i = 0 \<and> j \<in> set (inlet m))
     in m\<lparr>qxn := qxn1, qyn := qyn1,
          qx := (\<lambda>i j. if at_inlet i j then qw0 m else qx1 i j),
          qy := (\<lambda>i j. if at_inlet i j then 0 else qy1 i j),
          qw := (\<lambda>i j. if at_inlet i j then qw0 m else qw1 i j)\<rparr>)"

text \<open>
  \<open>update_velocity_field\<close>: \<open>mask\<close> selects the cells deeper than \<open>dry_depth\<close> with a
  positive discharge; the three assignments under \<open>mask\<close> and the three under
  \<open>~mask\<close> are kept in the order of the source.
\<close>

definition update_velocity_field :: "model \<Rightarrow> model" where
  "update_velocity_field m =
    (let mask = (\<lambda>i j. depth m i j > dry_depth m \<and> qw m i j > 0);
         uw1 = (\<lambda>i j. if mask i j then min (u_max m) (qw m i j / depth m i j)
                        else uw m i j);
         uw2 = (\<lambda>i j. if mask i j then uw1 i j else 0);
         ux1 = (\<lambda>i j. if mask i j then uw2 i j * qx m i j / qw m i j else ux m i j);
         ux2 = (\<lambda>i j. if mask i j then ux1 i j else 0);
         uy1 = (\<lambda>i j. if mask i j then uw2 i j * qy m i j / qw m i j else uy m i j);
         uy2 = (\<lambda>i j. if mask i j then uy1 i j else 0)
     in m\<lparr>uw := uw2, ux := ux2, uy := uy2\<rparr>)"

text \<open>
  \<open>finalize_water_iteration\<close>: the stage is floored at sea level, the depth is
  recomputed from the floored stage, then the flow and velocity fields are updated.
\<close>

definition finalize_water_iteration :: "int \<Rightarrow> model \<Rightarrow> model" where
  "finalize_water_iteration iteration m =
    (let m1 = m\<lparr>stage := (\<lambda>i j. max (stage m i j) (H_SL m))\<rparr>;
         m2 = m1\<lparr>depth := (\<lambda>i j. max (stage m1 i j - eta m1 i j) 0)\<rparr>
     in update_velocity_field (update_flow_field iteration m2))"

subsection \<open>Neighbour arrays and the flooding correction\<close>

text \<open>
  An array of shape \<open>(8, L, W)\<close> is a function from the neighbour number to a grid.
  \<open>set_block w k ilo ihi jlo jhi src\<close> is a slice assignment on plane \<open>k\<close>: the cells
  with \<open>ilo \<le> i < ihi\<close> and \<open>jlo \<le> j < jhi\<close> take their value from \<open>src\<close>, read before
  the assignment.
\<close>

definition set_block ::
  "(nat \<Rightarrow> real grid) \<Rightarrow> nat \<Rightarrow> int \<Rightarrow> int \<Rightarrow> int \<Rightarrow> int \<Rightarrow> real grid \<Rightarrow> (nat \<Rightarrow> real grid)" where
  "set_block w k ilo ihi jlo jhi src =
     w(k := (\<lambda>i j. if ilo \<le> i \<and> i < ihi \<and> jlo \<le> j \<and> j < jhi then src i j else w k i j))"

text \<open>
  The eight shifted copies of \<open>build_weight_array\<close>, in the order E, NE, N, NW, W, SW,
  S, SE, written into \<open>np.zeros((8, L, W))\<close>.
\<close>

definition shifted_copies :: "int \<Rightarrow> int \<Rightarrow> real grid \<Rightarrow> (nat \<Rightarrow> real grid)" where
  "shifted_copies L W array =
    (let w0 = (\<lambda>k i j. 0);
         w1 = set_block w0 0 0 L 0 (W - 1) (\<lambda>i j. array i (j + 1));
         w2 = set_block w1 1 1 L 0 (W - 1) (\<lambda>i j. array (i - 1) (j + 1));
         w3 = set_block w2 2 1 L 0 W (\<lambda>i j. array (i - 1) j);
         w4 = set_block w3 3 1 L 1 W (\<lambda>i j. array (i - 1) (j - 1));
         w5 = set_block w4 4 0 L 1 W (\<lambda>i j. array i (j - 1));
         w6 = set_block w5 5 0 (L - 1) 1 W (\<lambda>i j. array (i + 1) (j - 1));
         w7 = set_block w6 6 0 (L - 1) 0 W (\<lambda>i j. array (i + 1) j)
     in set_block w7 7 0 (L - 1) 0 (W - 1) (\<lambda>i j. array (i + 1) (j + 1)))"

text \<open>
  The edge assignments under \<open>fix_edges\<close>: \<open>wgt_array[k, :, jd] = wgt_array[k, :, js]\<close>
  copies a column of plane \<open>k\<close>, \<open>wgt_array[k, id, :] = wgt_array[k, is, :]\<close> a row.
\<close>

definition copy_col ::
  "int \<Rightarrow> nat \<Rightarrow> int \<Rightarrow> int \<Rightarrow> (nat \<Rightarrow> real grid) \<Rightarrow> (nat \<Rightarrow> real grid)" where
  "copy_col L k jd js w = set_block w k 0 L jd (jd + 1) (\<lambda>i j. w k i js)"

definition copy_row ::
  "int \<Rightarrow> nat \<Rightarrow> int \<Rightarrow> int \<Rightarrow> (nat \<Rightarrow> real grid) \<Rightarrow> (nat \<Rightarrow> real grid)" where
  "copy_row W k idst isrc w = set_block w k idst (idst + 1) 0 W (\<lambda>i j. w k isrc j)"

text \<open>
  The twelve assignments in the order of the source (the first is applied first); the
  indices \<open>-1\<close> and \<open>-2\<close> are \<open>W - 1\<close>, \<open>W - 2\<close> on the column axis and \<open>L - 1\<close>,
  \<open>L - 2\<close> on the row axis.
\<close>

definition fix_edges_copies :: "int \<Rightarrow> int \<Rightarrow> (nat \<Rightarrow> real grid) \<Rightarrow> (nat \<Rightarrow> real grid)" where
  "fix_edges_copies L W w =
    fold (\<lambda>f a. f a)
      [copy_col L 0 (W - 1) (W - 2),
       copy_col L 1 (W - 1) (W - 2),
       copy_col L 7 (W - 1) (W - 2),
       copy_row W 1 0 1,
       copy_row W 2 0 1,
       copy_row W 3 0 1,
       copy_col L 3 0 1,
       copy_col L 4 0 1,
       copy_col L 5 0 1,
       copy_row W 5 (L - 1) (L - 2),
       copy_row W 6 (L - 1) (L - 2),
       copy_row W 7 (L - 1) (L - 2)] w"

text \<open>\<open>np.sum(wgt_array, axis=0)\<close>.\<close>

definition sum_axis0 :: "(nat \<Rightarrow> real grid) \<Rightarrow> real grid" where
  "sum_axis0 w = (\<lambda>i j. sum_list (map (\<lambda>k. w k i j) [0..<8]))"

definition normalize_copies :: "(nat \<Rightarrow> real grid) \<Rightarrow> (nat \<Rightarrow> real grid)" where
  "normalize_copies w =
    (let a_sum = sum_axis0 w
     in (\<lambda>k i j. if a_sum i j \<noteq> 0 then w k i j / a_sum i j else w k i j))"

text \<open>
  \<open>build_weight_array\<close> (\<open>do_normalize\<close> is the keyword \<open>normalize\<close>). With
  \<open>fix_edges\<close> the indices 1 and \<open>-2\<close> are read on both
  axes, which raises IndexError on an array with fewer than two rows or two columns:
  the result is \<open>None\<close> there.
\<close>

definition build_weight_array ::
  "int \<Rightarrow> int \<Rightarrow> real grid \<Rightarrow> bool \<Rightarrow> bool \<Rightarrow> (nat \<Rightarrow> real grid) option" where
  "build_weight_array L W array fix_edges do_normalize =
    (if fix_edges \<and> (L < 2 \<or> W < 2) then None
     else
       (let w = shifted_copies L W array;
            w1 = (if fix_edges then fix_edges_copies L W w else w)
        in Some (if do_normalize then normalize_copies w1 else w1)))"

definition get_wet_mask_nh :: "model \<Rightarrow> (nat \<Rightarrow> real grid) option" where
  "get_wet_mask_nh m =
    (let wet_mask = (\<lambda>i j. if depth m i j > dry_depth m then 1 else 0)
     in build_weight_array (grid_L m) (grid_W m) wet_mask True False)"

text \<open>The cells of an \<open>L\<close> by \<open>W\<close> array in row-major order, as \<open>np.where\<close> lists them.\<close>

definition cells :: "int \<Rightarrow> int \<Rightarrow> (int \<times> int) list" where
  "cells L W = List.product [0..L - 1] [0..W - 1]"

text \<open>Python's \<open>max\<close> of a non-empty sequence.\<close>

definition py_max :: "real list \<Rightarrow> real" where
  "py_max xs = fold max (tl xs) (hd xs)"

text \<open>
  One round of the loop of \<open>flooding_correction\<close> over the shore cells: \<open>stage_nh\<close>
  holds the stage of each wet neighbour and zero in the place of every other one.
\<close>

definition flood_cell ::
  "(nat \<Rightarrow> real grid) \<Rightarrow> (nat \<Rightarrow> real grid) \<Rightarrow> real grid \<Rightarrow> int \<times> int \<Rightarrow> real grid \<Rightarrow> real grid" where
  "flood_cell wet_mask_nh stage_nhs eta_a c stg =
    (case c of (i, j) \<Rightarrow>
      (let stage_nh = map (\<lambda>k. wet_mask_nh k i j * stage_nhs k i j) [0..<8]
       in if list_ex (\<lambda>x. x > eta_a i j) stage_nh
          then upd2 stg i j (py_max stage_nh) else stg))"

definition flooding_correction :: "model \<Rightarrow> model option" where
  "flooding_correction m =
    (let wet_mask = (\<lambda>i j. depth m i j > dry_depth m)
     in case get_wet_mask_nh m of
          None \<Rightarrow> None
        | Some wet_mask_nh \<Rightarrow>
           (let wet_mask_nh_sum = sum_axis0 wet_mask_nh;
                wet_mask_nh_sum1 = (\<lambda>i j. if wet_mask i j then 0 else wet_mask_nh_sum i j);
                shore_ind = filter (\<lambda>(i, j). wet_mask_nh_sum1 i j > 0)
                              (cells (grid_L m) (grid_W m))
            in case build_weight_array (grid_L m) (grid_W m) (stage m) False False of
                 None \<Rightarrow> None
               | Some stage_nhs \<Rightarrow>
                   Some (m\<lparr>stage := fold (flood_cell wet_mask_nh stage_nhs (eta m))
                                         shore_ind (stage m)\<rparr>)))"

subsection \<open>Smoothing and finalising the free surface\<close>

text \<open>
  \<open>np.pad(a, 1, 'edge')\<close> of an array of shape \<open>(L, W)\<close> with at least one row and one
  column: the padded array has shape \<open>(L + 2, W + 2)\<close> and its cell \<open>(i, j)\<close> holds the
  value of the nearest cell of \<open>a\<close>.
\<close>

definition clamp :: "int \<Rightarrow> int \<Rightarrow> int" where
  "clamp n x = max 0 (min (n - 1) x)"

definition np_pad_edge :: "int \<Rightarrow> int \<Rightarrow> 'a grid \<Rightarrow> 'a grid" where
  "np_pad_edge L W a = (\<lambda>i j. a (clamp L (i - 1)) (clamp W (j - 1)))"

text \<open>
  The slice \<open>a[i:i + 3, j:j + 3]\<close> of a padded array, ravelled: the nine values around
  the cell \<open>(i, j)\<close> of the unpadded array, row by row.
\<close>

definition window :: "'a grid \<Rightarrow> int \<Rightarrow> int \<Rightarrow> 'a list" where
  "window a i j = map (\<lambda>(x, y). a (i + x) (j + y)) (List.product [0, 1, 2] [0, 1, 2])"

text \<open>
  The body of the two inner loops of \<open>_smooth_free_surface\<close> at the cell \<open>(i, j)\<close>. The
  state is the pair of the arrays that the body writes: \<open>Htemp\<close> (the same array as
  \<open>Hnew\<close> and \<open>Hsmth\<close>, which are other names of it) and \<open>Hnew_pad\<close>.
  \<open>Hnew_ind\<close> is a view of \<open>Hnew_pad\<close>, so \<open>Hnew_ind[1, 1] = 0\<close> writes the zero into
  \<open>Hnew_pad\<close> itself, where it stays; \<open>ravel()\<close> of that view is a copy (the view is
  not contiguous), so the zeros written under \<open>_log\<close> stay local.
\<close>

definition smooth_cell ::
  "int grid \<Rightarrow> int grid \<Rightarrow> real \<Rightarrow> int \<times> int \<Rightarrow> real grid \<times> real grid \<Rightarrow> real grid \<times> real grid" where
  "smooth_cell ct pad_ct C c st =
    (case c of (i, j) \<Rightarrow> case st of (Htemp, Hnew_pad) \<Rightarrow>
      if ct i j > - 2 then
        (let ct_ind = window pad_ct i j;
             Hnew_pad1 = upd2 Hnew_pad (i + 1) (j + 1) 0;
             Hnew_ind = window Hnew_pad1 i j;
             Hnew_ind1 = map (\<lambda>(t, h). if t = - 2 then 0 else h) (zip ct_ind Hnew_ind);
             sumH = sum_list Hnew_ind1;
             nbcount = length (filter (\<lambda>h. h > 0) Hnew_ind1)
         in if nbcount > 0
            then (upd2 Htemp i j (C * Htemp i j + (1 - C) * sumH / real nbcount), Hnew_pad1)
            else (Htemp, Hnew_pad1))
      else (Htemp, Hnew_pad))"

text \<open>
  One pass over the cells, row by row, and \<open>Nsmooth\<close> passes; \<open>L\<close> and \<open>W\<close> are
  \<open>cell_type.shape\<close>.
\<close>

definition smooth_pass ::
  "int grid \<Rightarrow> int grid \<Rightarrow> int \<Rightarrow> int \<Rightarrow> real \<Rightarrow> real grid \<times> real grid \<Rightarrow> real grid \<times> real grid" where
  "smooth_pass ct pad_ct L W C st = fold (smooth_cell ct pad_ct C) (cells L W) st"

definition smooth_free_surface ::
  "real grid \<Rightarrow> real grid \<Rightarrow> int \<Rightarrow> int \<Rightarrow> int grid \<Rightarrow> int grid \<Rightarrow> int \<Rightarrow> real \<Rightarrow> real grid" where
  "smooth_free_surface Hnew Hnew_pad L W ct pad_ct N C =
     fst ((smooth_pass ct pad_ct L W C ^^ nat N) (Hnew, Hnew_pad))"

text \<open>
  The surface that \<open>finalize_free_surface\<close> smooths: bed plus depth, floored at sea
  level, replaced by the mean of the accumulated walks where a walk has visited.
\<close>

definition new_surface :: "model \<Rightarrow> real grid" where
  "new_surface m =
    (let Hnew = (\<lambda>i j. eta m i j + depth m i j);
         Hnew1 = (\<lambda>i j. if Hnew i j < H_SL m then H_SL m else Hnew i j)
     in (\<lambda>i j. if sfc_visit m i j > 0 then sfc_sum m i j / sfc_visit m i j else Hnew1 i j))"

definition smoothed_surface :: "model \<Rightarrow> real grid" where
  "smoothed_surface m =
    (let Hnew = new_surface m;
         Hnew_pad = np_pad_edge (grid_L m) (grid_W m) Hnew
     in smooth_free_surface Hnew Hnew_pad (grid_L m) (grid_W m) (cell_type m)
          (pad_cell_type m) (Nsmooth m) (Csmooth m))"

text \<open>
  \<open>finalize_free_surface\<close>: \<open>Hsmth\<close> is blended into the stage only under
  \<open>_time_iter > 0\<close>; there is no other assignment to the stage before the flooding
  correction.
\<close>

definition finalize_free_surface :: "model \<Rightarrow> model option" where
  "finalize_free_surface m =
    (let Hsmth = smoothed_surface m;
         m1 = (if time_iter m > 0
               then m\<lparr>stage := (\<lambda>i j. (1 - omega_sfc m) * stage m i j + omega_sfc m * Hsmth i j)\<rparr>
               else m)
     in flooding_correction m1)"

subsection \<open>Flattened indices\<close>

text \<open>
  Modelled from the spec: \<open>shared_tools.custom_unravel\<close> and \<open>shared_tools.custom_ravel\<close>
  are not among the sources. The spec calls a parcel's index a flattened grid
  coordinate: the index of the cell \<open>(x, y)\<close> of an array of shape \<open>(L, W)\<close> is
  \<open>x * W + y\<close>, rows first.
\<close>

definition custom_unravel :: "int \<Rightarrow> int \<times> int \<Rightarrow> int \<times> int" where
  "custom_unravel i shape = (i div snd shape, i mod snd shape)"

definition custom_ravel :: "int \<times> int \<Rightarrow> int \<times> int \<Rightarrow> int" where
  "custom_ravel tup shape = fst tup * snd shape + snd tup"



text \<open>\<open>xs[q]\<close> for an index array entry \<open>q\<close>; a negative \<open>q\<close> counts from the end.\<close>

definition py_nth :: "'a list \<Rightarrow> int \<Rightarrow> 'a" where
  "py_nth xs q = xs ! nat (if q < 0 then q + int (length xs) else q)"

subsection \<open>The functions of shared_tools that the router calls\<close>


subsection \<open>One step of the parcels\<close>

text \<open>
  \<open>_choose_next_direction\<close>: a parcel at index 0 gets direction 4 and draws nothing;
  any other parcel draws from the weights of its cell.
\<close>

fun choose_next_direction ::
  "(real list \<Rightarrow> 'g \<Rightarrow> int \<times> 'g) \<Rightarrow> int list \<Rightarrow> (int \<Rightarrow> real list) \<Rightarrow> 'g \<Rightarrow> int list \<times> 'g" where
  "choose_next_direction pick [] weights g = ([], g)"
| "choose_next_direction pick (ind # inds) weights g =
    (if ind \<noteq> 0
     then (case pick (weights ind) g of (d, g1) \<Rightarrow>
             (case choose_next_direction pick inds weights g1 of (ds, g2) \<Rightarrow> (d # ds, g2)))
     else (case choose_next_direction pick inds weights g of (ds, g1) \<Rightarrow> (4 # ds, g1)))"

text \<open>
  \<open>_calculate_new_ind\<close>: direction 4 gives the index 0; any other direction \<open>q\<close> moves
  the unravelled position by \<open>(jwalk[q], iwalk[q])\<close>.
\<close>

definition calculate_new_ind ::
  "int list \<Rightarrow> int list \<Rightarrow> int list \<Rightarrow> int list \<Rightarrow> int \<times> int \<Rightarrow> int list" where
  "calculate_new_ind indices new_cells iwalk jwalk domain_shape =
     map (\<lambda>(p, q).
            if q \<noteq> 4
            then (let ind_tuple = custom_unravel p domain_shape;
                      new_ind = (fst ind_tuple + py_nth jwalk q, snd ind_tuple + py_nth iwalk q)
                  in custom_ravel new_ind domain_shape)
            else 0)
         (zip indices new_cells)"

subsection \<open>Loop detection\<close>

text \<open>\<open>np.round\<close>: to the nearest integer, a half to the even neighbour.\<close>

definition np_round :: "real \<Rightarrow> int" where
  "np_round x =
    (let f = \<lfloor>x\<rfloor>; d = x - of_int f
     in if d < 1 / 2 then f else if d > 1 / 2 then f + 1 else if even f then f else f + 1)"

text \<open>\<open>len(_walk) != len(set(_walk))\<close>.\<close>

definition has_repeat_ind :: "int list \<Rightarrow> bool" where
  "has_repeat_ind walk1 = (length walk1 \<noteq> length (remdups walk1))"

text \<open>
  The position a looped parcel is sent to: five cells away from the point
  \<open>(1, CTR)\<close> along the line from that point through the parcel, then clamped to the
  rows \<open>L0 .. L - 2\<close> and the columns \<open>1 .. W - 2\<close>.
\<close>

definition deflect :: "int \<Rightarrow> int \<times> int \<Rightarrow> int \<Rightarrow> int \<Rightarrow> int \<times> int" where
  "deflect new_ind domain_shape L0v CTRv =
    (let domain_min_x = fst domain_shape - 2;
         domain_min_y = snd domain_shape - 2;
         pxy = custom_unravel new_ind domain_shape;
         Fx = fst pxy - 1;
         Fy = snd pxy - CTRv;
         Fw = sqrt (of_int (Fx ^ 2 + Fy ^ 2));
         px = (if Fw \<noteq> 0 then fst pxy + np_round (of_int Fx / Fw * 5) else fst pxy);
         py = (if Fw \<noteq> 0 then snd pxy + np_round (of_int Fy / Fw * 5) else snd pxy)
     in (min domain_min_x (max px L0v), min domain_min_y (max 1 py)))"

text \<open>The body of the loop over the parcels, for the parcel \<open>p\<close>.\<close>

definition check_parcel ::
  "int list list \<Rightarrow> int \<Rightarrow> int \<times> int \<Rightarrow> int \<Rightarrow> nat
     \<Rightarrow> int list \<times> int list \<times> int list \<Rightarrow> int list \<times> int list \<times> int list" where
  "check_parcel walks L0v domain_shape CTRv p st =
    (case st of (new_indices, loopd, flag) \<Rightarrow>
      (let new_ind = new_indices ! p;
           walk = walks ! p;
           walk1 = filter (\<lambda>w. w > 0) walk
       in if new_ind > 0 \<and> has_repeat_ind walk1
          then (new_indices[p := custom_ravel (deflect new_ind domain_shape L0v CTRv) domain_shape],
                loopd[p := loopd ! p + 1],
                flag[p := - 1])
          else st))"

text \<open>
  \<open>_check_for_loops\<close>; the three arrays are changed in place and returned. The
  arrays \<open>new_indices\<close>, \<open>looped\<close> and \<open>free_surf_flag\<close> have one entry for each row of
  \<open>free_surf_walk_indices\<close>.
\<close>

definition check_for_loops ::
  "int list list \<Rightarrow> int list \<Rightarrow> int \<Rightarrow> int \<Rightarrow> int list \<Rightarrow> int \<times> int \<Rightarrow> int \<Rightarrow> int list
     \<Rightarrow> int list \<times> int list \<times> int list" where
  "check_for_loops walks new_indices step L0v loopd domain_shape CTRv flag =
    (let nparcels = length walks
     in if step > L0v
        then fold (check_parcel walks L0v domain_shape CTRv) [0..<nparcels]
               (new_indices, loopd, flag)
        else (new_indices, loopd, flag))"

subsection \<open>Flux accumulation\<close>




subsection \<open>The path matrix and the boundary\<close>





subsection \<open>The water iteration\<close>

definition init_water_iteration :: "model \<Rightarrow> model" where
  "init_water_iteration m =
     m\<lparr>qxn := (\<lambda>i j. 0), qyn := (\<lambda>i j. 0), qwn := (\<lambda>i j. 0),
       free_surf_flag := map (\<lambda>f. 0) (free_surf_flag m),
       free_surf_walk_indices := map (map (\<lambda>w. 0)) (free_surf_walk_indices m),
       sfc_visit := (\<lambda>i j. 0), sfc_sum := (\<lambda>i j. 0),
       pad_stage := np_pad_edge (grid_L m) (grid_W m) (stage m),
       pad_depth := np_pad_edge (grid_L m) (grid_W m) (depth m),
       pad_cell_type := np_pad_edge (grid_L m) (grid_W m) (cell_type m)\<rparr>"







subsection \<open>Accumulating the free surface along the walks\<close>

text \<open>
  One round of the loop that walks a path upstream, at the cell \<open>(i, j)\<close> with the next
  cell downstream \<open>(ip, jp)\<close>. The state is \<open>Hnew\<close>, \<open>in_ocean\<close>, \<open>dH\<close> and the two
  accumulators.
\<close>

definition walk_step ::
  "real grid \<Rightarrow> real grid \<Rightarrow> real grid \<Rightarrow> real grid \<Rightarrow> real \<Rightarrow> real \<Rightarrow> real \<Rightarrow> real
     \<Rightarrow> (int \<times> int) \<times> (int \<times> int)
     \<Rightarrow> real grid \<times> bool \<times> real \<times> real grid \<times> real grid
     \<Rightarrow> real grid \<times> bool \<times> real \<times> real grid \<times> real grid" where
  "walk_step uwa uxa uya deptha dxv u0v h0v S0v cc st =
    (case cc of ((i, j), (ip, jp)) \<Rightarrow> case st of (Hnew, in_ocean, dH, visit, sm) \<Rightarrow>
      (let moved = (i \<noteq> ip \<or> j \<noteq> jp);
           in_ocean1 = (if moved \<and> in_ocean \<and> (uwa i j > u0v * 0.5 \<or> deptha i j < 0.1 * h0v)
                        then False else in_ocean);
           dH1 = (if moved \<and> \<not> in_ocean
                  then (if uwa i j = 0 then 0
                        else S0v * (uxa i j * of_int (ip - i) * dxv
                                    + uya i j * of_int (jp - j) * dxv) / uwa i j)
                  else dH);
           Hnew1 = upd2 Hnew i j (Hnew ip jp + dH1)
       in (Hnew1, in_ocean1, dH1,
           upd2 visit i j (visit i j + 1),
           upd2 sm i j (sm i j + Hnew1 i j))))"

text \<open>
  The body of the loop over the parcels for one path \<open>inds\<close> with its loop counter.
  \<open>None\<close> stands for \<open>xs[-1]\<close> on a path with no positive entry. The rounds
  \<open>it = len(xs) - 2, ..., 0\<close> see the pairs of consecutive cells from the last one
  back to the first.
\<close>

definition accumulate_walk ::
  "int grid \<Rightarrow> real grid \<Rightarrow> real grid \<Rightarrow> real grid \<Rightarrow> real grid \<Rightarrow> int \<times> int
     \<Rightarrow> real \<Rightarrow> real \<Rightarrow> real \<Rightarrow> real \<Rightarrow> real
     \<Rightarrow> int list \<Rightarrow> int \<Rightarrow> real grid \<times> real grid \<Rightarrow> (real grid \<times> real grid) option" where
  "accumulate_walk ct uwa uxa uya deptha shape dxv u0v h0v H_SLv S0v inds looped_p acc =
    (let inds_whr = filter (\<lambda>i. i > 0) inds;
         xys = map (\<lambda>ind_whr. custom_unravel ind_whr shape) inds_whr
     in if xys = [] then None
        else
          (case last xys of (xl, yl) \<Rightarrow>
             if ct xl yl = - 1 \<and> looped_p = 0
             then
               (let Hnew = upd2 (\<lambda>i j. 0) xl yl H_SLv;
                    rounds = rev (zip (butlast xys) (tl xys))
                in case fold (walk_step uwa uxa uya deptha dxv u0v h0v S0v) rounds
                          (Hnew, True, 0, fst acc, snd acc) of
                     (Hnew1, in_ocean, dH, visit, sm) \<Rightarrow> Some (visit, sm))
             else Some acc))"

text \<open>
  \<open>_accumulate_free_surface_walks\<close>: the paths one after the other, from accumulators
  that are zero everywhere; \<open>shape\<close> is \<open>uw.shape\<close>.
\<close>

fun accumulate_paths ::
  "(int list \<Rightarrow> int \<Rightarrow> real grid \<times> real grid \<Rightarrow> (real grid \<times> real grid) option)
     \<Rightarrow> (int list \<times> int) list \<Rightarrow> real grid \<times> real grid \<Rightarrow> (real grid \<times> real grid) option" where
  "accumulate_paths body [] acc = Some acc"
| "accumulate_paths body ((inds, looped_p) # ps) acc =
     (case body inds looped_p acc of
        None \<Rightarrow> None
      | Some acc1 \<Rightarrow> accumulate_paths body ps acc1)"

definition accumulate_free_surface_walks ::
  "int list list \<Rightarrow> int list \<Rightarrow> int grid \<Rightarrow> real grid \<Rightarrow> real grid \<Rightarrow> real grid \<Rightarrow> real grid
     \<Rightarrow> int \<times> int \<Rightarrow> real \<Rightarrow> real \<Rightarrow> real \<Rightarrow> real \<Rightarrow> real \<Rightarrow> (real grid \<times> real grid) option" where
  "accumulate_free_surface_walks walks loopd ct uwa uxa uya deptha shape dxv u0v h0v H_SLv S0v =
     accumulate_paths (accumulate_walk ct uwa uxa uya deptha shape dxv u0v h0v H_SLv S0v)
       (zip walks loopd) (\<lambda>i j. 0, \<lambda>i j. 0)"

definition compute_free_surface :: "model \<Rightarrow> model option" where
  "compute_free_surface m =
    (case accumulate_free_surface_walks (free_surf_walk_indices m) (looped m) (cell_type m)
            (uw m) (ux m) (uy m) (depth m) (grid_L m, grid_W m)
            (dx m) (u0 m) (h0 m) (H_SL m) (S0 m) of
       None \<Rightarrow> None
     | Some (visit, sm) \<Rightarrow> finalize_free_surface (m\<lparr>sfc_visit := visit, sfc_sum := sm\<rparr>))"

section \<open>Notions used by the statements\<close>

text \<open>
  The cells inside an array of shape \<open>(L, W)\<close>, the eight neighbour offsets in the
  order of \<open>build_weight_array\<close>, the wet cells, and the wet neighbours of a cell
  that lie inside the grid.
\<close>

definition in_shape :: "int \<Rightarrow> int \<Rightarrow> int \<Rightarrow> int \<Rightarrow> bool" where
  "in_shape L W i j = (0 \<le> i \<and> i < L \<and> 0 \<le> j \<and> j < W)"

definition nbr_offsets :: "(int \<times> int) list" where
  "nbr_offsets = [(0, 1), (-1, 1), (-1, 0), (-1, -1), (0, -1), (1, -1), (1, 0), (1, 1)]"

definition wet :: "model \<Rightarrow> int \<Rightarrow> int \<Rightarrow> bool" where
  "wet m i j = (depth m i j > dry_depth m)"

definition nbrs :: "int \<Rightarrow> int \<Rightarrow> (int \<times> int) list" where
  "nbrs i j = map (\<lambda>(di, dj). (i + di, j + dj)) nbr_offsets"

definition wet_nbrs :: "model \<Rightarrow> int \<Rightarrow> int \<Rightarrow> (int \<times> int) list" where
  "wet_nbrs m i j =
     filter (\<lambda>(a, b). in_shape (grid_L m) (grid_W m) a b \<and> wet m a b) (nbrs i j)"

text \<open>
  What \<open>stage_nh\<close> holds in the place of a neighbour: its stage if it is a wet cell
  of the grid, zero otherwise.
\<close>

definition nh_value :: "model \<Rightarrow> int \<times> int \<Rightarrow> real" where
  "nh_value m c = (case c of (a, b) \<Rightarrow>
      if in_shape (grid_L m) (grid_W m) a b \<and> wet m a b then stage m a b else 0)"

definition stage_at :: "int \<Rightarrow> int \<Rightarrow> model \<Rightarrow> real" where
  "stage_at i j m = stage m i j"

subsection \<open>Example states\<close>

definition blank_model :: model where
  "blank_model =
    \<lparr>grid_L = 0, grid_W = 0, eta = (\<lambda>i j. 0), stage = (\<lambda>i j. 0), depth = (\<lambda>i j. 0),
     cell_type = (\<lambda>i j. 0), pad_cell_type = (\<lambda>i j. 0),
     qx = (\<lambda>i j. 0), qy = (\<lambda>i j. 0), qw = (\<lambda>i j. 0),
     qxn = (\<lambda>i j. 0), qyn = (\<lambda>i j. 0), qwn = (\<lambda>i j. 0),
     ux = (\<lambda>i j. 0), uy = (\<lambda>i j. 0), uw = (\<lambda>i j. 0),
     sfc_visit = (\<lambda>i j. 0), sfc_sum = (\<lambda>i j. 0), inlet = [], qw0 = 0, H_SL = 0,
     dry_depth = 0, u_max = 0, omega_sfc = 0, omega_flow = 0, omega_flow_iter = 0,
     Nsmooth = 0, Csmooth = 0, time_iter = 0,
     pad_stage = (\<lambda>i j. 0), pad_depth = (\<lambda>i j. 0), water_weights = (\<lambda>i j. []),
     free_surf_walk_indices = [], looped = [], free_surf_flag = [],
     Np_water = 0, Qp_water = 0, dx = 1, stepmax = 0, L0 = 0, CTR = 0,
     iwalk_flat = [- 1, 0, 1, - 1, 0, 1, - 1, 0, 1],
     jwalk_flat = [- 1, - 1, - 1, 0, 0, 0, 1, 1, 1],
     ivec_flat = [], jvec_flat = [], distances_flat = [],
     gamma = 0, theta_water = 1, u0 = 1, h0 = 1, S0 = 0\<rparr>"

text \<open>
  A grid of two rows and two columns with the dry threshold 2: the cell \<open>(0, 0)\<close> is
  dry (depth 2, bed 0, stage 2), the cell \<open>(0, 1)\<close> is wet (depth 4, bed \<open>-3\<close>,
  stage 1), the second row is dry land at height 5.
\<close>

definition shore_example :: model where
  "shore_example = blank_model\<lparr>grid_L := 2, grid_W := 2, dry_depth := 2,
     eta := (\<lambda>i j. if i = 0 then (if j = 0 then 0 else - 3) else 5),
     stage := (\<lambda>i j. if i = 0 then (if j = 0 then 2 else 1) else 5),
     depth := (\<lambda>i j. if i = 0 then (if j = 0 then 2 else 4) else 0)\<rparr>"

text \<open>
  A state for the velocity field: every cell has depth 1, the cells of column 0 carry
  the discharge \<open>(3, 4)\<close> of magnitude 5, the others none.
\<close>

definition velocity_example :: model where
  "velocity_example = blank_model\<lparr>dry_depth := 1 / 10, u_max := 2,
     depth := (\<lambda>i j. 1), qw := (\<lambda>i j. if j = 0 then 5 else 0),
     qx := (\<lambda>i j. if j = 0 then 3 else 0), qy := (\<lambda>i j. if j = 0 then 4 else 0)\<rparr>"

text \<open>
  A first iteration (\<open>_time_iter = 0\<close>) on a dry flat grid of two rows and two columns:
  bed 0, depth 0, stage 1 everywhere, sea level 3.
\<close>

definition first_example :: model where
  "first_example = blank_model\<lparr>grid_L := 2, grid_W := 2, H_SL := 3, Nsmooth := 1,
     Csmooth := 1 / 2, time_iter := 0, stage := (\<lambda>i j. 1)\<rparr>"

subsection \<open>The mean of the neighbours, as the spec words it\<close>

text \<open>
  Stated from the spec, to compare the smoother with: the values of the eight
  neighbours of a cell on the surface \<open>H\<close> (with the edge cells repeated outside the
  grid), without the neighbours classified \<open>-2\<close> and without the values that are zero,
  and their unweighted mean.
\<close>

definition qualifying_values :: "int \<Rightarrow> int \<Rightarrow> real grid \<Rightarrow> int grid \<Rightarrow> int \<Rightarrow> int \<Rightarrow> real list" where
  "qualifying_values L W H ct i j =
     filter (\<lambda>v. v \<noteq> 0)
       (map (\<lambda>(a, b). np_pad_edge L W H (a + 1) (b + 1))
          (filter (\<lambda>(a, b). np_pad_edge L W ct (a + 1) (b + 1) \<noteq> - 2) (nbrs i j)))"

definition nbr_mean :: "int \<Rightarrow> int \<Rightarrow> real grid \<Rightarrow> int grid \<Rightarrow> int \<Rightarrow> int \<Rightarrow> real" where
  "nbr_mean L W H ct i j =
     sum_list (qualifying_values L W H ct i j) / real (length (qualifying_values L W H ct i j))"

text \<open>A surface of one row, with the values 1 and 3, and a grid with no wall cell.\<close>

definition surface_1_3 :: "real grid" where
  "surface_1_3 = (\<lambda>i j. if j = 0 then 1 else 3)"

definition no_walls :: "int grid" where
  "no_walls = (\<lambda>i j. 0)"

text \<open>The entries of the three per-parcel arrays for the parcel \<open>p\<close>.\<close>

definition at3 :: "nat \<Rightarrow> int list \<times> int list \<times> int list \<Rightarrow> int \<times> int \<times> int" where
  "at3 p st = (case st of (a, b, c) \<Rightarrow> (a ! p, b ! p, c ! p))"

text \<open>The parcel \<open>p\<close> has an entry in each of the three per-parcel arrays.\<close>

definition len3 :: "nat \<Rightarrow> int list \<times> int list \<times> int list \<Rightarrow> bool" where
  "len3 p st = (case st of (a, b, c) \<Rightarrow> p < length a \<and> p < length b \<and> p < length c)"

subsection \<open>Paths that qualify\<close>

text \<open>
  The condition under which \<open>_accumulate_free_surface_walks\<close> walks a path: the last
  positive index of the path is a cell of type \<open>-1\<close> and the loop counter is 0.
\<close>

definition qualifies :: "int grid \<Rightarrow> int \<times> int \<Rightarrow> int list \<Rightarrow> int \<Rightarrow> bool" where
  "qualifies ct shape inds looped_p =
     (case custom_unravel (last (filter (\<lambda>i. i > 0) inds)) shape of
        (xl, yl) \<Rightarrow> ct xl yl = - 1 \<and> looped_p = 0)"

text \<open>A grid of edge cells and a grid of zeros, for the examples.\<close>

definition all_ocean :: "int grid" where
  "all_ocean = (\<lambda>i j. - 1)"

definition zero_grid :: "real grid" where
  "zero_grid = (\<lambda>i j. 0)"

text \<open>The two accumulators in the state of the walk.\<close>

definition visit_of :: "real grid \<times> bool \<times> real \<times> real grid \<times> real grid \<Rightarrow> real grid" where
  "visit_of st = fst (snd (snd (snd st)))"

definition sum_of :: "real grid \<times> bool \<times> real \<times> real grid \<times> real grid \<Rightarrow> real grid" where
  "sum_of st = snd (snd (snd (snd st)))"

text \<open>
  A pick that always answers direction 3 and steps the generator, and a weight table
  with no weights, for the examples.
\<close>

definition pick_three :: "real list \<Rightarrow> nat \<Rightarrow> int \<times> nat" where
  "pick_three w g = (3, Suc g)"

definition no_weights :: "int \<Rightarrow> real list" where
  "no_weights = (\<lambda>k. [])"

subsection \<open>An example run\<close>



section \<open>Properties\<close>

subsection \<open>Finalising the water iteration\<close>

lemma update_flow_field_frame:
  "stage (update_flow_field it m) = stage m"
  "depth (update_flow_field it m) = depth m"
  "eta (update_flow_field it m) = eta m"
  "H_SL (update_flow_field it m) = H_SL m"
  "dry_depth (update_flow_field it m) = dry_depth m"
  "u_max (update_flow_field it m) = u_max m"
  by (simp_all add: update_flow_field_def Let_def)

lemma update_velocity_field_frame:
  "stage (update_velocity_field m) = stage m"
  "depth (update_velocity_field m) = depth m"
  "eta (update_velocity_field m) = eta m"
  "H_SL (update_velocity_field m) = H_SL m"
  by (simp_all add: update_velocity_field_def Let_def)

text \<open>
  C1. After \<open>finalize_water_iteration\<close>, at every cell the depth is
  \<open>max (stage - eta) 0\<close>, the stage is at least \<open>H_SL\<close>, and so the depth is not
  negative.
\<close>

theorem finalize_water_iteration_depth_stage:
  "depth (finalize_water_iteration it m) i j =
     max (stage (finalize_water_iteration it m) i j
          - eta (finalize_water_iteration it m) i j) 0
   \<and> H_SL (finalize_water_iteration it m) \<le> stage (finalize_water_iteration it m) i j
   \<and> 0 \<le> depth (finalize_water_iteration it m) i j"
  by (simp add: finalize_water_iteration_def Let_def
      update_flow_field_frame update_velocity_field_frame)

subsection \<open>Flooding correction\<close>

lemma shifted_copies_nth:
  assumes "in_shape L W i j" "k < 8"
  shows "shifted_copies L W a k i j =
     (case nbr_offsets ! k of (di, dj) \<Rightarrow>
        if in_shape L W (i + di) (j + dj) then a (i + di) (j + dj) else 0)"
proof -
  from assms(2) consider "k = 0" | "k = 1" | "k = 2" | "k = 3" | "k = 4" | "k = 5" | "k = 6" | "k = 7"
    by linarith
  then show ?thesis
    using assms(1)
    by cases (auto simp: shifted_copies_def set_block_def in_shape_def nbr_offsets_def Let_def)
qed

lemma copy_col_apply:
  "copy_col L k jd js w k' i j =
     (if k' = k \<and> 0 \<le> i \<and> i < L \<and> j = jd then w k i js else w k' i j)"
  by (auto simp: copy_col_def set_block_def)

lemma copy_row_apply:
  "copy_row W k idst isrc w k' i j =
     (if k' = k \<and> i = idst \<and> 0 \<le> j \<and> j < W then w k isrc j else w k' i j)"
  by (auto simp: copy_row_def set_block_def)

lemma fix_edges_copies_nth:
  assumes "in_shape L W i j" "k < 8" "2 \<le> L" "2 \<le> W"
  shows "fix_edges_copies L W (shifted_copies L W a) k i j =
     (case nbr_offsets ! k of (di, dj) \<Rightarrow> a (clamp L (i + di)) (clamp W (j + dj)))"
proof -
  from assms(2) consider "k = 0" | "k = 1" | "k = 2" | "k = 3" | "k = 4" | "k = 5" | "k = 6" | "k = 7"
    by linarith
  then show ?thesis
  proof cases
    case 1
    then show ?thesis using assms(1,3,4)
      by (simp add: fix_edges_copies_def copy_col_apply copy_row_apply)
        (auto simp: shifted_copies_def set_block_def in_shape_def nbr_offsets_def Let_def clamp_def)
  next
    case 2
    then show ?thesis using assms(1,3,4)
      by (simp add: fix_edges_copies_def copy_col_apply copy_row_apply)
        (auto simp: shifted_copies_def set_block_def in_shape_def nbr_offsets_def Let_def clamp_def)
  next
    case 3
    then show ?thesis using assms(1,3,4)
      by (simp add: fix_edges_copies_def copy_col_apply copy_row_apply)
        (auto simp: shifted_copies_def set_block_def in_shape_def nbr_offsets_def Let_def clamp_def)
  next
    case 4
    then show ?thesis using assms(1,3,4)
      by (simp add: fix_edges_copies_def copy_col_apply copy_row_apply)
        (auto simp: shifted_copies_def set_block_def in_shape_def nbr_offsets_def Let_def clamp_def)
  next
    case 5
    then show ?thesis using assms(1,3,4)
      by (simp add: fix_edges_copies_def copy_col_apply copy_row_apply)
        (auto simp: shifted_copies_def set_block_def in_shape_def nbr_offsets_def Let_def clamp_def)
  next
    case 6
    then show ?thesis using assms(1,3,4)
      by (simp add: fix_edges_copies_def copy_col_apply copy_row_apply)
        (auto simp: shifted_copies_def set_block_def in_shape_def nbr_offsets_def Let_def clamp_def)
  next
    case 7
    then show ?thesis using assms(1,3,4)
      by (simp add: fix_edges_copies_def copy_col_apply copy_row_apply)
        (auto simp: shifted_copies_def set_block_def in_shape_def nbr_offsets_def Let_def clamp_def)
  next
    case 8
    then show ?thesis using assms(1,3,4)
      by (simp add: fix_edges_copies_def copy_col_apply copy_row_apply)
        (auto simp: shifted_copies_def set_block_def in_shape_def nbr_offsets_def Let_def clamp_def)
  qed
qed

lemma fold_flood_cell:
  "fold (flood_cell wm sn e) cs stg i j =
    (if (i, j) \<in> set cs \<and> list_ex (\<lambda>x. x > e i j) (map (\<lambda>k. wm k i j * sn k i j) [0..<8])
     then py_max (map (\<lambda>k. wm k i j * sn k i j) [0..<8]) else stg i j)"
  by (induction cs arbitrary: stg) (auto simp: flood_cell_def upd2_def Let_def split: if_splits)

lemma set_cells: "set (cells L W) = {(i, j). in_shape L W i j}"
  by (auto simp: cells_def in_shape_def)

lemma upt_8: "[0..<8] = [0, 1, 2, 3, 4, 5, 6, 7]"
  by (simp add: upt_rec)

lemma clamp_id: "0 \<le> x \<Longrightarrow> x < n \<Longrightarrow> clamp n x = x"
  by (simp add: clamp_def)

lemma length_nbr_offsets: "length nbr_offsets = 8"
  by (simp add: nbr_offsets_def)

lemma stage_nh_entry:
  assumes "in_shape (grid_L m) (grid_W m) i j" "k < 8" "2 \<le> grid_L m" "2 \<le> grid_W m"
  shows "fix_edges_copies (grid_L m) (grid_W m)
           (shifted_copies (grid_L m) (grid_W m) (\<lambda>i j. if depth m i j > dry_depth m then 1 else 0)) k i j
         * shifted_copies (grid_L m) (grid_W m) (stage m) k i j
         = nh_value m (nbrs i j ! k)"
proof -
  obtain di dj where o: "nbr_offsets ! k = (di, dj)" by (cases "nbr_offsets ! k")
  have n: "nbrs i j ! k = (i + di, j + dj)"
    using assms(2) o by (simp add: nbrs_def length_nbr_offsets)
  show ?thesis
    unfolding fix_edges_copies_nth[OF assms] shifted_copies_nth[OF assms(1,2)] n o
    by (auto simp: nh_value_def wet_def in_shape_def clamp_def)
qed

lemma stage_nh_list:
  assumes "in_shape (grid_L m) (grid_W m) i j" "2 \<le> grid_L m" "2 \<le> grid_W m"
  shows "map (\<lambda>k. fix_edges_copies (grid_L m) (grid_W m)
           (shifted_copies (grid_L m) (grid_W m) (\<lambda>i j. if depth m i j > dry_depth m then 1 else 0)) k i j
         * shifted_copies (grid_L m) (grid_W m) (stage m) k i j) [0..<8]
       = map (nh_value m) (nbrs i j)"
proof -
  have l: "length (nbrs i j) = 8" by (simp add: nbrs_def nbr_offsets_def)
  show ?thesis
    by (rule nth_equalityI) (simp_all add: l stage_nh_entry[OF assms(1) _ assms(2,3)])
qed

lemma clamped_nbr:
  assumes "in_shape L W i j" "(di, dj) \<in> set nbr_offsets"
  shows "(clamp L (i + di) = i \<and> clamp W (j + dj) = j)
       \<or> ((clamp L (i + di), clamp W (j + dj)) \<in> set (nbrs i j)
           \<and> in_shape L W (clamp L (i + di)) (clamp W (j + dj)))"
proof -
  have d: "di \<in> {-1, 0, 1}" "dj \<in> {-1, 0, 1}"
    using assms(2) by (auto simp: nbr_offsets_def)
  have ci: "clamp L (i + di) = i \<or> clamp L (i + di) = i + di"
    using assms(1) d(1) by (auto simp: in_shape_def clamp_def)
  have cj: "clamp W (j + dj) = j \<or> clamp W (j + dj) = j + dj"
    using assms(1) d(2) by (auto simp: in_shape_def clamp_def)
  have si: "0 \<le> clamp L (i + di) \<and> clamp L (i + di) < L"
    using assms(1) by (auto simp: in_shape_def clamp_def)
  have sj: "0 \<le> clamp W (j + dj) \<and> clamp W (j + dj) < W"
    using assms(1) by (auto simp: in_shape_def clamp_def)
  have mem: "(i + a, j + b) \<in> set (nbrs i j)"
    if "a \<in> {-1, 0, 1}" "b \<in> {-1, 0, 1}" "\<not> (a = 0 \<and> b = 0)" for a b
    using that by (auto simp: nbrs_def nbr_offsets_def)
  have "in_shape L W (clamp L (i + di)) (clamp W (j + dj))"
    using si sj by (simp add: in_shape_def)
  moreover have "(clamp L (i + di) = i \<and> clamp W (j + dj) = j)
       \<or> (clamp L (i + di), clamp W (j + dj)) \<in> set (nbrs i j)"
  proof -
    obtain a where a: "a \<in> {-1, 0, 1}" "clamp L (i + di) = i + a"
      using ci d(1) by (metis add.right_neutral insertCI)
    obtain b where b: "b \<in> {-1, 0, 1}" "clamp W (j + dj) = j + b"
      using cj d(2) by (metis add.right_neutral insertCI)
    show ?thesis
    proof (cases "a = 0 \<and> b = 0")
      case True
      then show ?thesis using a b by simp
    next
      case False
      then show ?thesis using mem[OF a(1) b(1)] a(2) b(2) by simp
    qed
  qed
  ultimately show ?thesis by blast
qed

lemma sum_list_01_pos:
  assumes "\<And>x. x \<in> set xs \<Longrightarrow> f x = (0::real) \<or> f x = 1"
  shows "sum_list (map f xs) > 0 \<longleftrightarrow> (\<exists>x\<in>set xs. f x = 1)"
proof -
  have nn: "\<And>x. x \<in> set xs \<Longrightarrow> 0 \<le> f x" using assms by force
  have "sum_list (map f xs) = 0 \<longleftrightarrow> (\<forall>x\<in>set xs. f x = 0)"
    using nn by (subst sum_list_nonneg_eq_0_iff) auto
  moreover have "0 \<le> sum_list (map f xs)" by (rule sum_list_nonneg) (auto simp: nn)
  ultimately have "sum_list (map f xs) > 0 \<longleftrightarrow> (\<exists>x\<in>set xs. f x \<noteq> 0)"
    by auto
  also have "\<dots> \<longleftrightarrow> (\<exists>x\<in>set xs. f x = 1)"
    using assms by force
  finally show ?thesis .
qed

lemma wet_mask_sum_pos:
  assumes "in_shape (grid_L m) (grid_W m) i j" "2 \<le> grid_L m" "2 \<le> grid_W m" "\<not> wet m i j"
  shows "sum_axis0 (fix_edges_copies (grid_L m) (grid_W m)
           (shifted_copies (grid_L m) (grid_W m) (\<lambda>i j. if depth m i j > dry_depth m then 1 else 0))) i j > 0
         \<longleftrightarrow> wet_nbrs m i j \<noteq> []"
proof -
  let ?wm = "fix_edges_copies (grid_L m) (grid_W m)
           (shifted_copies (grid_L m) (grid_W m) (\<lambda>i j. if depth m i j > dry_depth m then 1 else 0))"
  have e: "?wm k i j = (if wet m (clamp (grid_L m) (i + fst (nbr_offsets ! k)))
                               (clamp (grid_W m) (j + snd (nbr_offsets ! k))) then 1 else 0)"
    if "k < 8" for k
    using fix_edges_copies_nth[OF assms(1) that assms(2,3)]
    by (simp add: wet_def split: prod.splits)
  have "sum_axis0 ?wm i j > 0 \<longleftrightarrow> (\<exists>k\<in>set [0..<8]. ?wm k i j = 1)"
    unfolding sum_axis0_def by (rule sum_list_01_pos) (simp add: e)
  also have "\<dots> \<longleftrightarrow> (\<exists>k<8. wet m (clamp (grid_L m) (i + fst (nbr_offsets ! k)))
                               (clamp (grid_W m) (j + snd (nbr_offsets ! k))))"
    by (auto simp: e)
  also have "\<dots> \<longleftrightarrow> (\<exists>c\<in>set (nbrs i j). in_shape (grid_L m) (grid_W m) (fst c) (snd c) \<and> wet m (fst c) (snd c))"
  proof
    assume "\<exists>k<8. wet m (clamp (grid_L m) (i + fst (nbr_offsets ! k)))
                               (clamp (grid_W m) (j + snd (nbr_offsets ! k)))"
    then obtain k where k: "k < 8" "wet m (clamp (grid_L m) (i + fst (nbr_offsets ! k)))
                               (clamp (grid_W m) (j + snd (nbr_offsets ! k)))" by blast
    have "(fst (nbr_offsets ! k), snd (nbr_offsets ! k)) \<in> set nbr_offsets"
      using k(1) by (simp add: length_nbr_offsets)
    from clamped_nbr[OF assms(1) this] k(2) assms(4)
    show "\<exists>c\<in>set (nbrs i j). in_shape (grid_L m) (grid_W m) (fst c) (snd c) \<and> wet m (fst c) (snd c)"
      by force
  next
    assume "\<exists>c\<in>set (nbrs i j). in_shape (grid_L m) (grid_W m) (fst c) (snd c) \<and> wet m (fst c) (snd c)"
    then obtain c where c: "c \<in> set (nbrs i j)" "in_shape (grid_L m) (grid_W m) (fst c) (snd c)"
      "wet m (fst c) (snd c)" by blast
    from c(1) obtain k where k: "k < 8" "nbrs i j ! k = c"
      by (metis in_set_conv_nth length_map length_nbr_offsets nbrs_def)
    have "c = (i + fst (nbr_offsets ! k), j + snd (nbr_offsets ! k))"
      using k by (auto simp: nbrs_def length_nbr_offsets split: prod.splits)
    then have "clamp (grid_L m) (i + fst (nbr_offsets ! k)) = fst c"
      "clamp (grid_W m) (j + snd (nbr_offsets ! k)) = snd c"
      using c(2) by (auto simp: in_shape_def clamp_def)
    then show "\<exists>k<8. wet m (clamp (grid_L m) (i + fst (nbr_offsets ! k)))
                               (clamp (grid_W m) (j + snd (nbr_offsets ! k)))"
      using k(1) c(3) by auto
  qed
  also have "\<dots> \<longleftrightarrow> wet_nbrs m i j \<noteq> []"
    by (force simp: wet_nbrs_def filter_empty_conv)
  finally show ?thesis .
qed

lemma flooding_correction_Some:
  "flooding_correction m = Some m' \<longleftrightarrow>
     2 \<le> grid_L m \<and> 2 \<le> grid_W m \<and>
     m' = m\<lparr>stage := fold (flood_cell
            (fix_edges_copies (grid_L m) (grid_W m)
               (shifted_copies (grid_L m) (grid_W m) (\<lambda>i j. if depth m i j > dry_depth m then 1 else 0)))
            (shifted_copies (grid_L m) (grid_W m) (stage m)) (eta m))
          (filter (\<lambda>(i, j). (if depth m i j > dry_depth m then 0 else
              sum_axis0 (fix_edges_copies (grid_L m) (grid_W m)
               (shifted_copies (grid_L m) (grid_W m) (\<lambda>i j. if depth m i j > dry_depth m then 1 else 0))) i j) > 0)
             (cells (grid_L m) (grid_W m)))
          (stage m)\<rparr>"
proof (cases "grid_L m < 2 \<or> grid_W m < 2")
  case True
  then show ?thesis
    by (auto simp: flooding_correction_def get_wet_mask_nh_def build_weight_array_def)
next
  case False
  then have "get_wet_mask_nh m = Some (fix_edges_copies (grid_L m) (grid_W m)
               (shifted_copies (grid_L m) (grid_W m) (\<lambda>i j. if depth m i j > dry_depth m then 1 else 0)))"
    by (simp add: get_wet_mask_nh_def build_weight_array_def)
  moreover have "build_weight_array (grid_L m) (grid_W m) (stage m) False False
     = Some (shifted_copies (grid_L m) (grid_W m) (stage m))"
    by (simp add: build_weight_array_def)
  ultimately show ?thesis using False
    by (simp add: flooding_correction_def eq_commute[of _ m'])
qed

lemma flooding_correction_stage:
  assumes "flooding_correction m = Some m'" "in_shape (grid_L m) (grid_W m) i j"
  shows "stage m' i j =
     (if \<not> wet m i j \<and> wet_nbrs m i j \<noteq> []
         \<and> list_ex (\<lambda>x. x > eta m i j) (map (nh_value m) (nbrs i j))
      then py_max (map (nh_value m) (nbrs i j)) else stage m i j)"
proof -
  have lw: "2 \<le> grid_L m" "2 \<le> grid_W m"
    using assms(1) by (simp_all add: flooding_correction_Some)
  have sh: "((i, j) \<in> set (filter (\<lambda>(i, j). (if depth m i j > dry_depth m then 0 else
              sum_axis0 (fix_edges_copies (grid_L m) (grid_W m)
               (shifted_copies (grid_L m) (grid_W m) (\<lambda>i j. if depth m i j > dry_depth m then 1 else 0))) i j) > 0)
             (cells (grid_L m) (grid_W m)))) \<longleftrightarrow> (\<not> wet m i j \<and> wet_nbrs m i j \<noteq> [])"
  proof (cases "wet m i j")
    case True
    then show ?thesis by (simp add: wet_def)
  next
    case False
    then show ?thesis
      using wet_mask_sum_pos[OF assms(2) lw False] assms(2)
      by (simp add: set_cells wet_def)
  qed
  let ?wm = "fix_edges_copies (grid_L m) (grid_W m)
               (shifted_copies (grid_L m) (grid_W m) (\<lambda>i j. if depth m i j > dry_depth m then 1 else 0))"
  let ?cs = "filter (\<lambda>(i, j). (if depth m i j > dry_depth m then 0 else sum_axis0 ?wm i j) > 0)
             (cells (grid_L m) (grid_W m))"
  let ?sn = "shifted_copies (grid_L m) (grid_W m) (stage m)"
  have "stage m' = fold (flood_cell ?wm ?sn (eta m)) ?cs (stage m)"
    using assms(1) unfolding flooding_correction_Some by simp
  then have "stage m' i j = fold (flood_cell ?wm ?sn (eta m)) ?cs (stage m) i j"
    by simp
  also have "\<dots> =
      (if (i, j) \<in> set ?cs
          \<and> list_ex (\<lambda>x. x > eta m i j) (map (\<lambda>k. ?wm k i j * ?sn k i j) [0..<8])
       then py_max (map (\<lambda>k. ?wm k i j * ?sn k i j) [0..<8]) else stage m i j)"
    by (rule fold_flood_cell)
  also have "\<dots> =
      (if (i, j) \<in> set ?cs \<and> list_ex (\<lambda>x. x > eta m i j) (map (nh_value m) (nbrs i j))
       then py_max (map (nh_value m) (nbrs i j)) else stage m i j)"
    unfolding stage_nh_list[OF assms(2) lw] ..
  also have "\<dots> =
      (if \<not> wet m i j \<and> wet_nbrs m i j \<noteq> []
         \<and> list_ex (\<lambda>x. x > eta m i j) (map (nh_value m) (nbrs i j))
       then py_max (map (nh_value m) (nbrs i j)) else stage m i j)"
    unfolding sh by (rule if_cong) (rule conj_assoc, rule refl, rule refl)
  finally show ?thesis .
qed

lemma py_max_Max: "xs \<noteq> [] \<Longrightarrow> py_max xs = Max (set xs)"
  by (cases xs) (simp_all add: py_max_def Max.set_eq_fold[symmetric] del: set_simps)

lemma flooding_correction_returns:
  "2 \<le> grid_L m \<Longrightarrow> 2 \<le> grid_W m \<Longrightarrow> \<exists>m'. flooding_correction m = Some m'"
  by (simp add: flooding_correction_Some)

text \<open>
  C3, as the code has it. On a grid with at least two rows and two columns
  \<open>flooding_correction\<close> returns, and at every cell of the grid: the stage changes only
  if the cell is dry and has a wet neighbour, and a changed stage lies above the bed of
  the cell (it may lie below the stage the cell had); where the bed of the cell is not
  negative, the stage becomes the largest stage of the wet neighbours exactly when the
  cell is dry and some wet neighbour's stage exceeds the bed, and stays as it was
  otherwise.
\<close>

theorem flooding_correction_shore:
  assumes "2 \<le> grid_L m" "2 \<le> grid_W m" "in_shape (grid_L m) (grid_W m) i j"
  shows "\<exists>m'. flooding_correction m = Some m'
     \<and> (stage m' i j \<noteq> stage m i j \<longrightarrow>
          \<not> wet m i j \<and> wet_nbrs m i j \<noteq> [] \<and> eta m i j < stage m' i j)
     \<and> (0 \<le> eta m i j \<longrightarrow>
          stage m' i j =
            (if \<not> wet m i j \<and> list_ex (\<lambda>(a, b). eta m i j < stage m a b) (wet_nbrs m i j)
             then py_max (map (\<lambda>(a, b). stage m a b) (wet_nbrs m i j))
             else stage m i j))"
proof -
  obtain m' where m': "flooding_correction m = Some m'"
    using flooding_correction_returns[OF assms(1,2)] by blast
  let ?xs = "map (nh_value m) (nbrs i j)"
  let ?ws = "map (\<lambda>(a, b). stage m a b) (wet_nbrs m i j)"
  note st = flooding_correction_stage[OF m' assms(3)]
  have xs_ne: "?xs \<noteq> []" by (simp add: nbrs_def nbr_offsets_def)
  have f1: "set ?ws \<subseteq> set ?xs"
    by (force simp: wet_nbrs_def nh_value_def)
  have f2: "set ?xs \<subseteq> insert 0 (set ?ws)"
    by (force simp: wet_nbrs_def nh_value_def split: if_splits)
  have a: "\<not> wet m i j \<and> wet_nbrs m i j \<noteq> [] \<and> eta m i j < stage m' i j"
    if ch: "stage m' i j \<noteq> stage m i j"
  proof -
    from ch st have c: "\<not> wet m i j" "wet_nbrs m i j \<noteq> []"
      "list_ex (\<lambda>x. x > eta m i j) ?xs" "stage m' i j = py_max ?xs"
      by (auto split: if_splits)
    from c(3) obtain x where x: "x \<in> set ?xs" "eta m i j < x"
      unfolding list_ex_iff by blast
    have "x \<le> Max (set ?xs)" using x(1) by (intro Max_ge) auto
    then show ?thesis using c x(2) py_max_Max[OF xs_ne] by simp
  qed
  have b: "stage m' i j =
            (if \<not> wet m i j \<and> list_ex (\<lambda>(a, b). eta m i j < stage m a b) (wet_nbrs m i j)
             then py_max ?ws else stage m i j)"
    if e: "0 \<le> eta m i j"
  proof -
    have ex_iff: "list_ex (\<lambda>x. x > eta m i j) ?xs
        \<longleftrightarrow> list_ex (\<lambda>(a, b). eta m i j < stage m a b) (wet_nbrs m i j)"
    proof
      assume "list_ex (\<lambda>x. x > eta m i j) ?xs"
      then obtain x where x: "x \<in> set ?xs" "eta m i j < x"
        unfolding list_ex_iff by blast
      then have "x \<in> set ?ws" using f2 e by auto
      then show "list_ex (\<lambda>(a, b). eta m i j < stage m a b) (wet_nbrs m i j)"
        using x(2) unfolding list_ex_iff by auto
    next
      assume "list_ex (\<lambda>(a, b). eta m i j < stage m a b) (wet_nbrs m i j)"
      then obtain c where c: "c \<in> set (wet_nbrs m i j)" "eta m i j < (case c of (a, b) \<Rightarrow> stage m a b)"
        unfolding list_ex_iff by auto
      then have "(case c of (a, b) \<Rightarrow> stage m a b) \<in> set ?xs" using f1 by auto
      then show "list_ex (\<lambda>x. x > eta m i j) ?xs"
        using c(2) unfolding list_ex_iff by blast
    qed
    show ?thesis
    proof (cases "\<not> wet m i j \<and> list_ex (\<lambda>(a, b). eta m i j < stage m a b) (wet_nbrs m i j)")
      case True
      then obtain c where c: "c \<in> set (wet_nbrs m i j)" "eta m i j < (case c of (a, b) \<Rightarrow> stage m a b)"
        unfolding list_ex_iff by auto
      then have ne: "wet_nbrs m i j \<noteq> []" by auto
      then have ws_ne: "?ws \<noteq> []" by simp
      let ?w = "case c of (a, b) \<Rightarrow> stage m a b"
      have w: "?w \<in> set ?ws" using c(1) by auto
      have le1: "Max (set ?ws) \<le> Max (set ?xs)"
        using f1 ws_ne by (intro Max_mono) auto
      have wle: "?w \<le> Max (set ?ws)" using w by (intro Max_ge) auto
      have "Max (set ?xs) \<in> set ?xs" using xs_ne by (intro Max_in) auto
      then have "Max (set ?xs) = 0 \<or> Max (set ?xs) \<in> set ?ws" using f2 by auto
      then have le2: "Max (set ?xs) \<le> Max (set ?ws)"
      proof
        assume "Max (set ?xs) = 0"
        then show ?thesis using e c(2) wle by linarith
      next
        assume "Max (set ?xs) \<in> set ?ws"
        then show ?thesis by (intro Max_ge) auto
      qed
      have "py_max ?xs = py_max ?ws"
        using le1 le2 py_max_Max[OF xs_ne] py_max_Max[OF ws_ne] by linarith
      then show ?thesis using True st ex_iff ne by simp
    next
      case False
      then show ?thesis using st ex_iff by auto
    qed
  qed
  show ?thesis using m' a b by blast
qed

lemma shore_example_shape:
  "grid_L shore_example = 2" "grid_W shore_example = 2"
  by (simp_all add: shore_example_def)

lemma shore_example_nbrs:
  "wet_nbrs shore_example 0 0 = [(0, 1)]"
  by (simp add: wet_nbrs_def nbrs_def nbr_offsets_def in_shape_def wet_def shore_example_def)

theorem flooding_correction_shore_witness:
  "2 \<le> grid_L shore_example \<and> 2 \<le> grid_W shore_example
   \<and> in_shape (grid_L shore_example) (grid_W shore_example) 0 0
   \<and> map_option (stage_at 0 0) (flooding_correction shore_example) = Some 1"
proof -
  have h: "2 \<le> grid_L shore_example" "2 \<le> grid_W shore_example"
    "in_shape (grid_L shore_example) (grid_W shore_example) 0 0"
    by (simp_all add: shore_example_shape in_shape_def)
  from flooding_correction_shore[OF h] obtain m' where
    m': "flooding_correction shore_example = Some m'"
    and s: "0 \<le> eta shore_example 0 0 \<longrightarrow>
          stage m' 0 0 =
            (if \<not> wet shore_example 0 0
                \<and> list_ex (\<lambda>(a, b). eta shore_example 0 0 < stage shore_example a b)
                     (wet_nbrs shore_example 0 0)
             then py_max (map (\<lambda>(a, b). stage shore_example a b) (wet_nbrs shore_example 0 0))
             else stage shore_example 0 0)"
    by blast
  have "stage m' 0 0 = 1"
    using s unfolding shore_example_nbrs
    by (simp add: shore_example_def wet_def py_max_def)
  then show ?thesis using h m' by (simp add: stage_at_def)
qed

text \<open>
  The claim C3 says that no stage is lowered. In the example the dry cell \<open>(0, 0)\<close>
  has stage 2 and its only wet neighbour has stage 1, above the bed 0 of the dry cell:
  the correction sets the stage of the dry cell to 1.
\<close>

theorem flooding_correction_lowers_stage:
  "map_option (stage_at 0 0) (flooding_correction shore_example) = Some 1
   \<and> stage_at 0 0 shore_example = 2"
proof -
  have h: "in_shape (grid_L shore_example) (grid_W shore_example) 0 0"
    by (simp add: shore_example_shape in_shape_def)
  obtain m' where m': "flooding_correction shore_example = Some m'"
    using flooding_correction_returns[of shore_example] by (auto simp: shore_example_shape)
  have nb: "map (nh_value shore_example) (nbrs 0 0) = [1, 0, 0, 0, 0, 0, 0, 0]"
    by (simp add: nh_value_def nbrs_def nbr_offsets_def in_shape_def wet_def shore_example_def)
  have "stage m' 0 0 = 1"
    unfolding flooding_correction_stage[OF m' h] nb shore_example_nbrs
    by (simp add: shore_example_def wet_def py_max_def)
  then show ?thesis using m' by (simp add: stage_at_def shore_example_def)
qed

subsection \<open>Velocity field\<close>

text \<open>
  C10. The thresholds of the model are not negative (\<open>dry_depth\<close> is a depth and
  \<open>u_max\<close> a speed). Then after \<open>update_velocity_field\<close>, at every cell, \<open>uw\<close> lies
  between 0 and \<open>u_max\<close>: under the mask it is \<open>qw / depth\<close> capped at \<open>u_max\<close>, and
  a cell outside the mask (depth at most \<open>dry_depth\<close>, or discharge not positive) has
  \<open>uw = ux = uy = 0\<close>.
\<close>

theorem update_velocity_field_bounds:
  assumes "0 \<le> dry_depth m" "0 \<le> u_max m"
  shows "0 \<le> uw (update_velocity_field m) i j
       \<and> uw (update_velocity_field m) i j \<le> u_max m
       \<and> uw (update_velocity_field m) i j =
           (if depth m i j > dry_depth m \<and> qw m i j > 0
            then min (u_max m) (qw m i j / depth m i j) else 0)
       \<and> (depth m i j \<le> dry_depth m \<or> qw m i j \<le> 0 \<longrightarrow>
            uw (update_velocity_field m) i j = 0
            \<and> ux (update_velocity_field m) i j = 0
            \<and> uy (update_velocity_field m) i j = 0)"
proof (cases "depth m i j > dry_depth m \<and> qw m i j > 0")
  case True
  then have "0 < depth m i j" using assms(1) by linarith
  then have "0 \<le> qw m i j / depth m i j" using True by simp
  then show ?thesis using True assms(2)
    by (simp add: update_velocity_field_def Let_def)
next
  case False
  then show ?thesis using assms(2)
    by (auto simp: update_velocity_field_def Let_def)
qed

theorem update_velocity_field_bounds_witness:
  "0 \<le> dry_depth velocity_example \<and> 0 \<le> u_max velocity_example
   \<and> uw (update_velocity_field velocity_example) 0 0 = 2
   \<and> uw (update_velocity_field velocity_example) 0 1 = 0
   \<and> ux (update_velocity_field velocity_example) 0 1 = 0
   \<and> uy (update_velocity_field velocity_example) 0 1 = 0"
proof -
  have h: "0 \<le> dry_depth velocity_example" "0 \<le> u_max velocity_example"
    by (simp_all add: velocity_example_def blank_model_def)
  show ?thesis
    using h update_velocity_field_bounds[OF h, of 0 0] update_velocity_field_bounds[OF h, of 0 1]
    by (simp add: velocity_example_def blank_model_def)
qed

subsection \<open>The first iteration of the free surface\<close>

text \<open>
  C2, as the code has it. With \<open>_time_iter = 0\<close> \<open>finalize_free_surface\<close> skips the
  relaxation and makes no use of the smoothed surface: the stage it leaves is the
  stage it found, after the flooding correction.
\<close>

theorem finalize_free_surface_first_iteration:
  assumes "time_iter m = 0"
  shows "finalize_free_surface m = flooding_correction m"
  using assms by (simp add: finalize_free_surface_def Let_def)

theorem finalize_free_surface_first_iteration_witness:
  "time_iter first_example = 0
   \<and> finalize_free_surface first_example = flooding_correction first_example"
proof -
  have h: "time_iter first_example = 0"
    by (simp add: first_example_def blank_model_def)
  show ?thesis using h finalize_free_surface_first_iteration[OF h] by simp
qed

lemma cells_2_2: "cells 2 2 = [(0, 0), (0, 1), (1, 0), (1, 1)]"
  by (simp add: cells_def upto_rec1)

lemma first_example_smoothed: "smoothed_surface first_example 0 0 = 3"
  by (simp add: smoothed_surface_def new_surface_def smooth_free_surface_def smooth_pass_def
      cells_2_2 smooth_cell_def window_def upd2_def np_pad_edge_def clamp_def
      first_example_def blank_model_def Let_def)

text \<open>
  The claim C2 says that the stage equals \<open>Hsmth\<close> after the call. In the example
  the smoothed surface is 3 at the cell \<open>(0, 0)\<close> and the stage stays 1.
\<close>

theorem finalize_free_surface_keeps_stage:
  "time_iter first_example = 0
   \<and> map_option (stage_at 0 0) (finalize_free_surface first_example) = Some 1
   \<and> smoothed_surface first_example 0 0 = 3"
proof -
  have h: "in_shape (grid_L first_example) (grid_W first_example) 0 0"
    by (simp add: in_shape_def first_example_def blank_model_def)
  have t: "time_iter first_example = 0"
    by (simp add: first_example_def blank_model_def)
  obtain m' where m': "flooding_correction first_example = Some m'"
    using flooding_correction_returns[of first_example]
    by (auto simp: first_example_def blank_model_def)
  have w: "\<not> wet first_example 0 0" by (simp add: wet_def first_example_def blank_model_def)
  have "stage m' 0 0 = 1"
    unfolding flooding_correction_stage[OF m' h] using w
    by (simp add: first_example_def blank_model_def wet_nbrs_def nbrs_def nbr_offsets_def wet_def)
  then show ?thesis
    using m' t first_example_smoothed
    by (simp add: finalize_free_surface_def Let_def stage_at_def)
qed

subsection \<open>The smoother\<close>

text \<open>
  With \<open>Csmooth = 1\<close> a pass writes back to each cell the value it holds, so any number
  of passes returns the surface it was given.
\<close>

lemma upd2_same: "upd2 a i j (a i j) = a"
  by (auto simp: upd2_def fun_eq_iff)

lemma smooth_cell_C1: "fst (smooth_cell ct pct 1 c st) = fst st"
  by (cases c; cases st) (simp add: smooth_cell_def Let_def upd2_same)

lemma smooth_pass_C1: "fst (fold (smooth_cell ct pct 1) cs st) = fst st"
  by (induction cs arbitrary: st) (simp_all add: smooth_cell_C1)

lemma smooth_passes_C1: "fst ((smooth_pass ct pct L W 1 ^^ n) st) = fst st"
  by (induction n) (simp_all add: smooth_pass_def smooth_pass_C1)

lemma smooth_free_surface_Csmooth_1: "smooth_free_surface Hnew Hnew_pad L W ct pct N 1 = Hnew"
  by (simp add: smooth_free_surface_def smooth_passes_C1)

lemma cells_1_2: "cells 1 2 = [(0, 0), (0, 1)]"
  by (simp add: cells_def upto_rec1)

text \<open>
  C4, second part: with \<open>Csmooth = 0\<close> a pass should give each cell the mean of its
  qualifying neighbours. On the surface with the values 1 and 3, one pass gives the
  cell \<open>(0, 1)\<close> the value \<open>17 / 7\<close>, while the mean of its neighbours is \<open>9 / 4\<close>: the
  cell \<open>(0, 0)\<close> was set to zero in \<open>Hnew_pad\<close> when the pass visited it, and the pass
  leaves it out of the sum and of the count.
\<close>

theorem smooth_free_surface_leaves_out_neighbour:
  "smooth_free_surface surface_1_3 (np_pad_edge 1 2 surface_1_3) 1 2 no_walls no_walls 1 0 0 1
     = 17 / 7
   \<and> nbr_mean 1 2 surface_1_3 no_walls 0 1 = 9 / 4"
  by (simp add: smooth_free_surface_def smooth_pass_def cells_1_2 smooth_cell_def window_def
     upd2_def np_pad_edge_def clamp_def surface_1_3_def no_walls_def Let_def
     nbr_mean_def qualifying_values_def nbrs_def nbr_offsets_def)

subsection \<open>Loop detection\<close>

lemma has_repeat_ind_distinct: "has_repeat_ind xs \<longleftrightarrow> \<not> distinct xs"
  by (metis has_repeat_ind_def length_remdups_eq remdups_id_iff_distinct)

lemma check_parcel_other:
  "q \<noteq> p \<Longrightarrow> at3 p (check_parcel walks L0v sh C q st) = at3 p st"
  by (cases st) (simp add: check_parcel_def at3_def Let_def)

lemma check_parcel_noop:
  "\<not> (fst (at3 p st) > 0 \<and> has_repeat_ind (filter (\<lambda>w. w > 0) (walks ! p)))
     \<Longrightarrow> check_parcel walks L0v sh C p st = st"
  by (cases st) (auto simp: check_parcel_def at3_def Let_def)

lemma fold_check_parcel_frame:
  "\<not> (fst (at3 p st) > 0 \<and> has_repeat_ind (filter (\<lambda>w. w > 0) (walks ! p)))
     \<Longrightarrow> at3 p (fold (check_parcel walks L0v sh C) ps st) = at3 p st"
proof (induction ps arbitrary: st)
  case Nil
  then show ?case by simp
next
  case (Cons q ps)
  show ?case
  proof (cases "q = p")
    case True
    then show ?thesis using Cons by (simp add: check_parcel_noop)
  next
    case False
    then have e: "at3 p (check_parcel walks L0v sh C q st) = at3 p st"
      by (rule check_parcel_other)
    then show ?thesis using Cons.IH[of "check_parcel walks L0v sh C q st"] Cons.prems
      by simp
  qed
qed

text \<open>
  C5. \<open>_check_for_loops\<close> leaves the new index, the loop counter and the flag of a
  parcel as they are when \<open>_step\<close> is at most \<open>L0\<close>, or the new index of the parcel is not
  positive, or the positive entries of its path are distinct. So a repeated index is
  ignored while \<open>_step \<le> L0\<close>, and a path that never comes back to a cell is never
  deflected, whatever the step.
\<close>

theorem check_for_loops_frame:
  assumes "step \<le> L0v \<or> new_indices ! p \<le> 0 \<or> distinct (filter (\<lambda>w. w > 0) (walks ! p))"
  shows "case check_for_loops walks new_indices step L0v loopd sh CTRv flag of
           (ni, lp, fl) \<Rightarrow> ni ! p = new_indices ! p \<and> lp ! p = loopd ! p \<and> fl ! p = flag ! p"
proof (cases "step > L0v")
  case False
  then show ?thesis by (simp add: check_for_loops_def)
next
  case True
  with assms have "\<not> (fst (at3 p (new_indices, loopd, flag)) > 0
      \<and> has_repeat_ind (filter (\<lambda>w. w > 0) (walks ! p)))"
    by (auto simp: at3_def has_repeat_ind_distinct)
  from fold_check_parcel_frame[OF this, of L0v sh CTRv "[0..<length walks]"] True
  show ?thesis
    by (auto simp: check_for_loops_def at3_def split: prod.splits)
qed

theorem check_for_loops_frame_witness:
  "((1::int) \<le> 3 \<or> [9::int] ! 0 \<le> 0 \<or> distinct (filter (\<lambda>w. w > 0) ([[5, 7, 5 :: int]] ! 0)))
   \<and> check_for_loops [[5, 7, 5]] [9] 1 3 [0] (10, 10) 5 [0] = ([9], [0], [0])"
proof -
  have h: "(1::int) \<le> 3 \<or> [9::int] ! 0 \<le> 0 \<or> distinct (filter (\<lambda>w. w > 0) ([[5, 7, 5 :: int]] ! 0))"
    by simp
  have l: "check_for_loops [[5, 7, 5]] [9] 1 3 [0] (10, 10) 5 [0] = ([9], [0], [0])"
    by (simp add: check_for_loops_def)
  show ?thesis
    using h check_for_loops_frame[OF h, where loopd = "[0]" and sh = "(10, 10)" and CTRv = 5 and flag = "[0]"] l by simp
qed

lemma check_parcel_len3: "len3 p (check_parcel walks L0v sh C q st) = len3 p st"
  by (cases st) (simp add: check_parcel_def len3_def Let_def)

lemma fold_check_parcel_notin:
  "p \<notin> set ps \<Longrightarrow> at3 p (fold (check_parcel walks L0v sh C) ps st) = at3 p st"
  by (induction ps arbitrary: st) (simp_all add: check_parcel_other)

lemma check_parcel_hit:
  assumes "len3 p st" "fst (at3 p st) > 0" "has_repeat_ind (filter (\<lambda>w. w > 0) (walks ! p))"
  shows "at3 p (check_parcel walks L0v sh C p st) =
     (custom_ravel (deflect (fst (at3 p st)) sh L0v C) sh, fst (snd (at3 p st)) + 1, - 1)"
  using assms by (cases st) (simp add: check_parcel_def at3_def len3_def Let_def)

lemma fold_check_parcel_hit:
  assumes "distinct ps" "p \<in> set ps" "len3 p st" "fst (at3 p st) > 0"
    "has_repeat_ind (filter (\<lambda>w. w > 0) (walks ! p))"
  shows "at3 p (fold (check_parcel walks L0v sh C) ps st) =
     (custom_ravel (deflect (fst (at3 p st)) sh L0v C) sh, fst (snd (at3 p st)) + 1, - 1)"
  using assms
proof (induction ps arbitrary: st)
  case Nil
  then show ?case by simp
next
  case (Cons q ps)
  show ?case
  proof (cases "q = p")
    case True
    then have "p \<notin> set ps" using Cons.prems(1) by simp
    then show ?thesis
      using True check_parcel_hit[OF Cons.prems(3,4,5)]
      by (simp add: fold_check_parcel_notin)
  next
    case False
    then have e: "at3 p (check_parcel walks L0v sh C q st) = at3 p st"
      by (rule check_parcel_other)
    have "p \<in> set ps" "distinct ps" using False Cons.prems(1,2) by auto
    from Cons.IH[OF this(2,1), of "check_parcel walks L0v sh C q st"] Cons.prems(3,4,5)
    show ?thesis by (simp add: e check_parcel_len3)
  qed
qed

lemma deflect_bounds:
  assumes "L0v \<le> L - 2" "3 \<le> W"
  shows "case deflect i (L, W) L0v C of (px, py) \<Rightarrow>
           L0v \<le> px \<and> px \<le> L - 2 \<and> 1 \<le> py \<and> py \<le> W - 2"
  using assms by (simp add: deflect_def Let_def)

lemma unravel_ravel:
  assumes "0 \<le> y" "y < W"
  shows "custom_unravel (custom_ravel (x, y) (L, W)) (L, W) = (x, y)"
  using assms by (simp add: custom_unravel_def custom_ravel_def)

text \<open>
  C6. The domain has an interior: \<open>L0 \<le> L - 2\<close> and \<open>W \<ge> 3\<close>. When \<open>_check_for_loops\<close>
  deflects the parcel \<open>p\<close> (the step is beyond \<open>L0\<close>, the new index is positive and the
  positive entries of the path repeat), the new index of the parcel unravels to a row
  in \<open>L0 .. L - 2\<close> and a column in \<open>1 .. W - 2\<close> and is not 0; the loop counter is
  raised by one and the flag is \<open>-1\<close>.
\<close>

theorem check_for_loops_deflect_inside:
  assumes "p < length walks" "length new_indices = length walks"
    "length loopd = length walks" "length flag = length walks"
    and "step > L0v" "new_indices ! p > 0" "\<not> distinct (filter (\<lambda>w. w > 0) (walks ! p))"
    and "L0v \<le> L - 2" "3 \<le> W"
  shows "case check_for_loops walks new_indices step L0v loopd (L, W) CTRv flag of
          (ni, lp, fl) \<Rightarrow>
            (case custom_unravel (ni ! p) (L, W) of
               (px, py) \<Rightarrow> L0v \<le> px \<and> px \<le> L - 2 \<and> 1 \<le> py \<and> py \<le> W - 2)
            \<and> ni ! p \<noteq> 0 \<and> lp ! p = loopd ! p + 1 \<and> fl ! p = - 1"
proof -
  obtain px py where d: "deflect (new_indices ! p) (L, W) L0v CTRv = (px, py)"
    by (cases "deflect (new_indices ! p) (L, W) L0v CTRv")
  have b: "L0v \<le> px \<and> px \<le> L - 2 \<and> 1 \<le> py \<and> py \<le> W - 2"
    using deflect_bounds[OF assms(8,9), of "new_indices ! p" CTRv] d by simp
  have u: "custom_unravel (custom_ravel (px, py) (L, W)) (L, W) = (px, py)"
    using b by (intro unravel_ravel) auto
  have nz: "custom_ravel (px, py) (L, W) \<noteq> 0"
  proof
    assume "custom_ravel (px, py) (L, W) = 0"
    then have "custom_unravel (custom_ravel (px, py) (L, W)) (L, W) = (0, 0)"
      by (simp add: custom_unravel_def)
    then show False using u b by simp
  qed
  have "at3 p (fold (check_parcel walks L0v (L, W) CTRv) [0..<length walks] (new_indices, loopd, flag))
      = (custom_ravel (px, py) (L, W), loopd ! p + 1, - 1)"
    using fold_check_parcel_hit[of "[0..<length walks]" p "(new_indices, loopd, flag)" walks L0v "(L, W)" CTRv]
      assms(1-4,6,7) d
    by (simp add: len3_def at3_def has_repeat_ind_distinct)
  then show ?thesis
    using assms(5) u b nz
    by (auto simp: check_for_loops_def at3_def split: prod.splits)
qed

lemma sqrt_25: "sqrt 25 = 5"
  by (rule real_sqrt_unique) simp_all

lemma deflect_example: "deflect 49 (10, 10) 3 5 = (7, 8)"
  by (simp add: deflect_def custom_unravel_def Let_def sqrt_25 np_round_def)

theorem check_for_loops_deflect_inside_witness:
  "check_for_loops [[5, 7, 5]] [49] 4 3 [0] (10, 10) 5 [0] = ([78], [1], [- 1])
   \<and> custom_unravel 78 (10, 10) = (7, 8)"
proof -
  have h: "0 < length [[5, 7, 5 :: int]]" "length [49 :: int] = length [[5, 7, 5 :: int]]"
    "length [0 :: int] = length [[5, 7, 5 :: int]]" "length [0 :: int] = length [[5, 7, 5 :: int]]"
    "(4 :: int) > 3" "[49 :: int] ! 0 > 0"
    "\<not> distinct (filter (\<lambda>w. w > 0) ([[5, 7, 5 :: int]] ! 0))"
    "(3 :: int) \<le> 10 - 2" "(3 :: int) \<le> 10"
    by simp_all
  have v: "check_for_loops [[5, 7, 5]] [49] 4 3 [0] (10, 10) 5 [0] = ([78], [1], [- 1])"
    by (simp add: check_for_loops_def check_parcel_def has_repeat_ind_def deflect_example
        custom_ravel_def Let_def)
  show ?thesis
    using check_for_loops_deflect_inside[OF h, where CTRv = 5] v
    by (simp add: custom_unravel_def)
qed

subsection \<open>Directions and new indices\<close>

lemma choose_next_direction_Cons:
  "\<exists>g'. fst (choose_next_direction pick (ind # inds) weights g) =
     (if ind \<noteq> 0 then fst (pick (weights ind) g) else 4)
       # fst (choose_next_direction pick inds weights g')"
proof (cases "ind \<noteq> 0")
  case True
  obtain d g1 where p: "pick (weights ind) g = (d, g1)" by (cases "pick (weights ind) g")
  obtain ds g2 where c: "choose_next_direction pick inds weights g1 = (ds, g2)"
    by (cases "choose_next_direction pick inds weights g1")
  have "fst (choose_next_direction pick (ind # inds) weights g) =
     fst (pick (weights ind) g) # fst (choose_next_direction pick inds weights g1)"
    using True p c by simp
  then show ?thesis using True by auto
next
  case False
  obtain ds g1 where c: "choose_next_direction pick inds weights g = (ds, g1)"
    by (cases "choose_next_direction pick inds weights g")
  have "fst (choose_next_direction pick (ind # inds) weights g) =
     4 # fst (choose_next_direction pick inds weights g)"
    using False c by simp
  then show ?thesis using False by auto
qed

lemma choose_next_direction_length:
  "length (fst (choose_next_direction pick inds weights g)) = length inds"
proof (induction inds arbitrary: g)
  case Nil
  then show ?case by simp
next
  case (Cons ind inds)
  obtain g' where "fst (choose_next_direction pick (ind # inds) weights g) =
     (if ind \<noteq> 0 then fst (pick (weights ind) g) else 4)
       # fst (choose_next_direction pick inds weights g')"
    using choose_next_direction_Cons[of pick ind inds weights g] by (elim exE)
  then show ?case using Cons.IH[of g'] by simp
qed

lemma choose_next_direction_zero:
  "k < length inds \<Longrightarrow> inds ! k = 0 \<Longrightarrow> fst (choose_next_direction pick inds weights g) ! k = 4"
proof (induction inds arbitrary: k g)
  case Nil
  then show ?case by simp
next
  case (Cons ind inds)
  obtain g' where e: "fst (choose_next_direction pick (ind # inds) weights g) =
     (if ind \<noteq> 0 then fst (pick (weights ind) g) else 4)
       # fst (choose_next_direction pick inds weights g')"
    using choose_next_direction_Cons[of pick ind inds weights g] by (elim exE)
  show ?case
  proof (cases k)
    case 0
    then show ?thesis using Cons.prems e by simp
  next
    case (Suc n)
    then show ?thesis using Cons.prems Cons.IH[of n g'] e by simp
  qed
qed

text \<open>
  C7, as the code has it. A parcel whose current index is 0 gets the direction 4.
  \<open>_calculate_new_ind\<close> gives a parcel with the direction 4 the index 0, whatever its
  current index; for any other direction \<open>q\<close> the new index is the ravelled position
  of the current cell moved by \<open>(jwalk[q], iwalk[q])\<close>.
\<close>

theorem direction_and_new_index:
  "(k < length inds \<and> inds ! k = 0 \<longrightarrow>
      fst (choose_next_direction pick inds weights g) ! k = 4)
   \<and> (k < length indices \<and> k < length new_cells \<longrightarrow>
        calculate_new_ind indices new_cells iwalk jwalk shape ! k =
          (if new_cells ! k = 4 then 0
           else custom_ravel
                  (fst (custom_unravel (indices ! k) shape) + py_nth jwalk (new_cells ! k),
                   snd (custom_unravel (indices ! k) shape) + py_nth iwalk (new_cells ! k))
                  shape))"
  by (simp add: choose_next_direction_zero calculate_new_ind_def Let_def)

theorem direction_and_new_index_witness:
  "fst (choose_next_direction pick_three [7, 0] no_weights (0 :: nat)) = [3, 4]
   \<and> calculate_new_ind [7, 0] [3, 4] (iwalk_flat blank_model) (jwalk_flat blank_model) (3, 3)
       = [6, 0]"
proof -
  have c: "fst (choose_next_direction pick_three [7, 0] no_weights (0 :: nat)) = [3, 4]"
    by (simp add: pick_three_def)
  have v: "calculate_new_ind [7, 0] [3, 4] (iwalk_flat blank_model) (jwalk_flat blank_model) (3, 3)
       = [6, 0]"
    by (simp add: calculate_new_ind_def custom_unravel_def custom_ravel_def py_nth_def
        blank_model_def Let_def)
  show ?thesis
    using direction_and_new_index[of 1 "[7, 0]" pick_three no_weights "0 :: nat" "[7, 0]" "[3, 4]"
        "iwalk_flat blank_model" "jwalk_flat blank_model" "(3, 3)"] c v
    by simp
qed

text \<open>
  The claim C7 says that the stay direction yields the current cell of the parcel. For
  a parcel at the index 5 of a grid of three columns, the offsets of direction 4
  applied to its position give 5 again, and \<open>_calculate_new_ind\<close> gives 0.
\<close>

theorem stay_direction_gives_zero:
  "calculate_new_ind [5] [4] (iwalk_flat blank_model) (jwalk_flat blank_model) (3, 3) = [0]
   \<and> custom_ravel
        (fst (custom_unravel 5 (3, 3)) + py_nth (jwalk_flat blank_model) 4,
         snd (custom_unravel 5 (3, 3)) + py_nth (iwalk_flat blank_model) 4) (3, 3) = 5"
  by (simp add: calculate_new_ind_def custom_unravel_def custom_ravel_def py_nth_def
      blank_model_def)

subsection \<open>Accumulating the walks\<close>

lemma visit_of_walk_step:
  "visit_of (walk_step uwa uxa uya deptha dxv u0v h0v S0v cc st) i j =
     visit_of st i j + (if fst cc = (i, j) then 1 else 0)"
  by (cases cc; cases st) (auto simp: walk_step_def visit_of_def upd2_def Let_def split: if_splits)

lemma visit_of_fold:
  "visit_of (fold (walk_step uwa uxa uya deptha dxv u0v h0v S0v) rounds st) i j =
     visit_of st i j + real (count_list (map fst rounds) (i, j))"
  by (induction rounds arbitrary: st) (simp_all add: visit_of_walk_step)

lemma map_fst_rounds:
  "map fst (rev (zip (butlast xs) (tl xs))) = rev (butlast xs)"
proof -
  have "length (butlast xs) = length (tl xs)" by simp
  then have e: "map fst (zip (butlast xs) (tl xs)) = butlast xs" by (rule map_fst_zip)
  show ?thesis unfolding rev_map[symmetric] e ..
qed

text \<open>
  C8, as the code has it. For a path with a positive entry the body of the loop over
  the parcels returns, and it changes the accumulators exactly when the path
  qualifies and has at least two positive entries: every positive entry but the last
  gets one more visit, so a qualifying path of a single cell adds nothing; a path that
  does not qualify leaves both accumulators as they are.
\<close>

theorem accumulate_walk_contributes:
  assumes "filter (\<lambda>i. i > 0) inds \<noteq> []"
  shows "\<exists>visit sm.
      accumulate_walk ct uwa uxa uya deptha shape dxv u0v h0v H_SLv S0v inds looped_p acc
        = Some (visit, sm)
      \<and> ((visit, sm) \<noteq> acc \<longleftrightarrow>
           qualifies ct shape inds looped_p \<and> 2 \<le> length (filter (\<lambda>i. i > 0) inds))"
proof -
  let ?pos = "filter (\<lambda>i. i > 0) inds"
  let ?xys = "map (\<lambda>ind_whr. custom_unravel ind_whr shape) ?pos"
  have ne: "?xys \<noteq> []" using assms by simp
  have lst: "last ?xys = custom_unravel (last ?pos) shape"
    using assms by (simp add: last_map)
  show ?thesis
  proof (cases "qualifies ct shape inds looped_p")
    case False
    then have "accumulate_walk ct uwa uxa uya deptha shape dxv u0v h0v H_SLv S0v inds looped_p acc
        = Some acc"
      using ne lst by (auto simp: accumulate_walk_def qualifies_def Let_def split: prod.splits)
    then show ?thesis using False by (cases acc) simp
  next
    case True
    obtain xl yl where l: "last ?xys = (xl, yl)" by (cases "last ?xys")
    let ?rounds = "rev (zip (butlast ?xys) (tl ?xys))"
    let ?ini = "(upd2 (\<lambda>i j. 0) xl yl H_SLv, True, 0::real, fst acc, snd acc)"
    let ?st = "fold (walk_step uwa uxa uya deptha dxv u0v h0v S0v) ?rounds ?ini"
    have q: "ct xl yl = - 1 \<and> looped_p = 0"
      using True l lst by (simp add: qualifies_def)
    have r: "accumulate_walk ct uwa uxa uya deptha shape dxv u0v h0v H_SLv S0v inds looped_p acc
        = Some (visit_of ?st, sum_of ?st)"
      using ne l q
      by (simp add: accumulate_walk_def Let_def visit_of_def sum_of_def split: prod.splits)
    show ?thesis
    proof (cases "2 \<le> length ?pos")
      case False
      moreover have "length ?pos \<noteq> 0" using assms by simp
      ultimately have "length ?pos = 1" by linarith
      then have "length ?xys = 1" by simp
      then have re: "?rounds = []" by (cases ?xys) auto
      have "?st = ?ini" unfolding re by simp
      then have "(visit_of ?st, sum_of ?st) = acc"
        by (simp only: visit_of_def sum_of_def fst_conv snd_conv prod.collapse)
      then show ?thesis using r False
        by (intro exI[of _ "visit_of ?st"] exI[of _ "sum_of ?st"]) simp
    next
      case len: True
      then obtain c cs where xs: "?xys = c # cs" "cs \<noteq> []"
        by (cases ?xys; cases "tl ?xys") auto
      obtain i j where c: "c = (i, j)" by (cases c)
      have "(i, j) \<in> set (butlast ?xys)" using xs c by simp
      then have "count_list (rev (butlast ?xys)) (i, j) > 0"
        using count_list_0_iff[of "rev (butlast ?xys)" "(i, j)"] by simp
      then have ne: "visit_of ?st i j \<noteq> fst acc i j"
        unfolding visit_of_fold map_fst_rounds by (simp add: visit_of_def)
      have "(visit_of ?st, sum_of ?st) \<noteq> acc"
      proof
        assume e: "(visit_of ?st, sum_of ?st) = acc"
        have "visit_of ?st = fst acc"
          using arg_cong[OF e, of fst] by (simp only: fst_conv)
        then have "visit_of ?st i j = fst acc i j" by (rule fun_cong[OF fun_cong])
        then show False by (rule notE[OF ne])
      qed
      then show ?thesis using r True len
        by (intro exI[of _ "visit_of ?st"] exI[of _ "sum_of ?st"]) simp
    qed
  qed
qed

theorem accumulate_walk_contributes_witness:
  "filter (\<lambda>i. i > 0) [4, 5, 0 :: int] \<noteq> []
   \<and> qualifies all_ocean (3, 3) [4, 5, 0] 0
   \<and> (\<exists>visit sm.
         accumulate_walk all_ocean zero_grid zero_grid zero_grid zero_grid (3, 3) 1 1 1 0 0
           [4, 5, 0] 0 (zero_grid, zero_grid) = Some (visit, sm)
         \<and> (visit, sm) \<noteq> (zero_grid, zero_grid))"
proof -
  have h: "filter (\<lambda>i. i > 0) [4, 5, 0 :: int] \<noteq> []" by simp
  have q: "qualifies all_ocean (3, 3) [4, 5, 0] 0"
    by (simp add: qualifies_def all_ocean_def custom_unravel_def)
  show ?thesis
    using h q accumulate_walk_contributes[OF h, of all_ocean zero_grid zero_grid zero_grid
        zero_grid "(3, 3)" 1 1 1 0 0 0 "(zero_grid, zero_grid)"]
    by simp
qed

text \<open>
  The claim C8 says that a path contributes whenever it qualifies. The path whose only
  positive entry is the index 4, on an edge cell and with loop counter 0, qualifies,
  and the accumulators come back unchanged.
\<close>

theorem single_cell_path_adds_nothing:
  "qualifies all_ocean (3, 3) [4, 0] 0
   \<and> accumulate_walk all_ocean zero_grid zero_grid zero_grid zero_grid (3, 3) 1 1 1 0 0
        [4, 0] 0 (zero_grid, zero_grid) = Some (zero_grid, zero_grid)"
  by (simp add: qualifies_def accumulate_walk_def all_ocean_def custom_unravel_def Let_def)

subsection \<open>The stepping loop\<close>





end
